theory Spec2Isabelle
  imports Complex_Main
begin

chapter \<open>A shallow embedding of the dependency-aware upgrade pipeline\<close>

text \<open>
  The Python modules \<^verbatim>\<open>chunker.py\<close>, \<^verbatim>\<open>parallel_processor.py\<close>,
  \<^verbatim>\<open>cache_manager.py\<close>, \<^verbatim>\<open>agentic_upgrader.py\<close> and
  \<^verbatim>\<open>dependency_analyzer.py\<close> are translated function by function.
  Mutable objects become records that are passed and returned, a raised exception
  becomes the left injection of a sum, and every loop becomes a recursive function.
  Python's \<^verbatim>\<open>str\<close> is a list of characters, \<^verbatim>\<open>int\<close> is \<^typ>\<open>int\<close>
  (or \<^typ>\<open>nat\<close> for list positions) and the clock readings of
  \<^verbatim>\<open>time.time()\<close> are idealised as \<^typ>\<open>real\<close> numbers.
\<close>

section \<open>Definitions\<close>

subsection \<open>Exceptions and strings\<close>

text \<open>An exception is kept with the text that \<^verbatim>\<open>str(e)\<close> yields.\<close>

datatype py_exception =
    IndexError string
  | ValueError string
  | RuntimeError string
  | SyntaxError string
  | OSError string
  | Exception string

fun str_of_exception :: "py_exception \<Rightarrow> string" where
  "str_of_exception (IndexError m) = m"
| "str_of_exception (ValueError m) = m"
| "str_of_exception (RuntimeError m) = m"
| "str_of_exception (SyntaxError m) = m"
| "str_of_exception (OSError m) = m"
| "str_of_exception (Exception m) = m"

text \<open>\<^verbatim>\<open>s.split(sep)\<close> for a one-character separator, and \<^verbatim>\<open>sep.join(parts)\<close>.\<close>

fun split_on :: "'a \<Rightarrow> 'a list \<Rightarrow> 'a list list" where
  "split_on sep [] = [[]]"
| "split_on sep (c # cs) =
     (if c = sep then [] # split_on sep cs
      else (case split_on sep cs of
              [] \<Rightarrow> [[c]]
            | l # ls \<Rightarrow> (c # l) # ls))"

fun join_with :: "'a list \<Rightarrow> 'a list list \<Rightarrow> 'a list" where
  "join_with sep [] = []"
| "join_with sep [x] = x"
| "join_with sep (x # y # ys) = x @ sep @ join_with sep (y # ys)"

definition newline :: char where
  "newline = CHR 0x0A"

definition split_lines :: "string \<Rightarrow> string list" where
  "split_lines s = split_on newline s"

definition join_lines :: "string list \<Rightarrow> string" where
  "join_lines ls = join_with [newline] ls"

text \<open>The decimal rendering of a number inside an f-string.\<close>

definition digit_char :: "nat \<Rightarrow> char" where
  "digit_char d = char_of (48 + d)"

fun str_of_nat :: "nat \<Rightarrow> string" where
  "str_of_nat n =
     (if n < 10 then [digit_char n] else str_of_nat (n div 10) @ [digit_char (n mod 10)])"

text \<open>
  \<^verbatim>\<open>range(start, stop, step)\<close> with non-negative bounds: a zero step raises,
  a negative step yields nothing, a positive step counts up to \<open>stop\<close>.
\<close>

function range_from :: "nat \<Rightarrow> nat \<Rightarrow> nat \<Rightarrow> nat list" where
  "range_from i stop step =
     (if step = 0 \<or> stop \<le> i then [] else i # range_from (i + step) stop step)"
  by pat_completeness auto
termination
  by (relation "measure (\<lambda>(i, stop, step). stop - i)") auto

declare range_from.simps [simp del]

definition py_range :: "nat \<Rightarrow> nat \<Rightarrow> int \<Rightarrow> py_exception + nat list" where
  "py_range start stop step =
     (if step = 0 then Inl (ValueError ''range() arg 3 must not be zero'')
      else if step < 0 then Inr []
      else Inr (range_from start stop (nat step)))"

text \<open>The slice \<^verbatim>\<open>xs[i:j]\<close> for \<open>i \<ge> 0\<close>; a bound past the end is clamped.\<close>

definition py_slice :: "'a list \<Rightarrow> nat \<Rightarrow> int \<Rightarrow> 'a list" where
  "py_slice xs i j = (if j \<le> int i then [] else take (nat j - i) (drop i xs))"

subsection \<open>The line-range chunker (\<^verbatim>\<open>chunker.py\<close>)\<close>

text \<open>A chunk is the dictionary that the chunker builds, one field per key.\<close>

record chunk =
  c_type :: string
  c_name :: string
  c_code :: string
  c_start_line :: nat
  c_end_line :: nat
  c_imports :: string

text \<open>\<^verbatim>\<open>CodeChunker._chunk_by_lines\<close>; the first argument is \<^verbatim>\<open>self.max_lines\<close>.\<close>

definition chunk_by_lines :: "int \<Rightarrow> string \<Rightarrow> py_exception + chunk list" where
  "chunk_by_lines max_lines code =
     (let lines = split_lines code in
      case py_range 0 (length lines) max_lines of
        Inl e \<Rightarrow> Inl e
      | Inr idxs \<Rightarrow>
          Inr (map (\<lambda>i.
                 let chunk_lines = py_slice lines i (int i + max_lines);
                     chunk_code = join_lines chunk_lines
                 in \<lparr> c_type = ''partial'',
                      c_name = ''lines_'' @ str_of_nat i @ ''_'' @ str_of_nat (i + length chunk_lines),
                      c_code = chunk_code,
                      c_start_line = i,
                      c_end_line = i + length chunk_lines,
                      c_imports = '''' \<rparr>) idxs))"

text \<open>\<^verbatim>\<open>CodeChunker._split_large_chunk\<close>.\<close>

definition split_large_chunk ::
  "int \<Rightarrow> string \<Rightarrow> nat \<Rightarrow> string \<Rightarrow> py_exception + chunk list" where
  "split_large_chunk max_lines chunk_code start_line imports =
     (let lines = split_lines chunk_code in
      case py_range 0 (length lines) max_lines of
        Inl e \<Rightarrow> Inl e
      | Inr idxs \<Rightarrow>
          Inr (map (\<lambda>i.
                 let sub_code = join_lines (py_slice lines i (int i + max_lines))
                 in \<lparr> c_type = ''partial'',
                      c_name = ''partial_'' @ str_of_nat (start_line + i),
                      c_code = sub_code,
                      c_start_line = start_line + i,
                      c_end_line = start_line + nat (min (int i + max_lines) (int (length lines))),
                      c_imports = imports \<rparr>) idxs))"

text \<open>
  What it means for a list of chunks to partition the text \<open>s\<close> exactly, with line
  numbers counted from \<open>off\<close>: the chunks are there, their code joined by single
  newlines is \<open>s\<close>, the first starts at \<open>off\<close>, each next one starts where the
  previous one ended, the last ends after the last line, and every chunk holds
  between one and \<open>max_lines\<close> lines, namely the lines of its range.
\<close>

definition exact_line_partition :: "int \<Rightarrow> nat \<Rightarrow> string \<Rightarrow> chunk list \<Rightarrow> bool" where
  "exact_line_partition max_lines off s cs \<longleftrightarrow>
     cs \<noteq> [] \<and>
     join_lines (map c_code cs) = s \<and>
     c_start_line (hd cs) = off \<and>
     c_end_line (last cs) = off + length (split_lines s) \<and>
     (\<forall>j. Suc j < length cs \<longrightarrow> c_start_line (cs ! Suc j) = c_end_line (cs ! j)) \<and>
     (\<forall>j. j < length cs \<longrightarrow>
        off \<le> c_start_line (cs ! j) \<and>
        c_start_line (cs ! j) < c_end_line (cs ! j) \<and>
        int (c_end_line (cs ! j)) - int (c_start_line (cs ! j)) \<le> max_lines \<and>
        c_code (cs ! j) =
          join_lines (py_slice (split_lines s) (c_start_line (cs ! j) - off)
                        (int (c_end_line (cs ! j) - off))))"

subsection \<open>The rate limiter (\<^verbatim>\<open>parallel_processor.py\<close>)\<close>

text \<open>
  The limiter object: its two settings and the deque of recorded call times, oldest
  first. The lock makes every \<^verbatim>\<open>acquire\<close> atomic, so a call is a function of the
  limiter and of the clock reading \<open>now\<close> that it takes.
\<close>

record rate_limiter =
  max_calls :: int
  time_window :: real
  calls :: "real list"

text \<open>The \<^verbatim>\<open>while\<close> loop that pops from the left while the head is too old.\<close>

fun popleft_older :: "real \<Rightarrow> real list \<Rightarrow> real list" where
  "popleft_older cutoff [] = []"
| "popleft_older cutoff (c # cs) = (if c < cutoff then popleft_older cutoff cs else c # cs)"

text \<open>
  \<^verbatim>\<open>RateLimiter.acquire\<close>: the wait time, or the exception that leaves the method,
  and the limiter afterwards.
\<close>

definition acquire :: "rate_limiter \<Rightarrow> real \<Rightarrow> (py_exception + real) \<times> rate_limiter" where
  "acquire rl now =
     (let cs = popleft_older (now - time_window rl) (calls rl) in
      if int (length cs) < max_calls rl then (Inr 0, rl\<lparr>calls := cs @ [now]\<rparr>)
      else (case cs of
              [] \<Rightarrow> (Inl (IndexError ''deque index out of range''), rl\<lparr>calls := cs\<rparr>)
            | oldest_call # _ \<Rightarrow>
                let wait_time = (oldest_call + time_window rl) - now
                in (Inr (max 0 wait_time), rl\<lparr>calls := cs\<rparr>)))"

text \<open>
  \<^verbatim>\<open>RateLimiter.wait_if_needed\<close>: one \<^verbatim>\<open>acquire\<close>, then a sleep of the wait time
  when it is positive, and nothing after the sleep. The Python method returns
  nothing; the model returns the time at which the caller goes on to make its call
  (the sleep taken as exact) and the limiter afterwards.
\<close>

definition wait_if_needed :: "rate_limiter \<Rightarrow> real \<Rightarrow> (py_exception + real) \<times> rate_limiter" where
  "wait_if_needed rl now =
     (case acquire rl now of
        (Inl e, rl') \<Rightarrow> (Inl e, rl')
      | (Inr wait_time, rl') \<Rightarrow>
          (Inr (if wait_time > 0 then now + wait_time else now), rl'))"

text \<open>
  A simulated clock: callers reach \<^verbatim>\<open>wait_if_needed\<close> at the given clock readings,
  one after the other; the result lists the times at which they go on.
\<close>

fun admit_all :: "rate_limiter \<Rightarrow> real list \<Rightarrow> (py_exception + real list) \<times> rate_limiter" where
  "admit_all rl [] = (Inr [], rl)"
| "admit_all rl (now # nows) =
     (case wait_if_needed rl now of
        (Inl e, rl') \<Rightarrow> (Inl e, rl')
      | (Inr t, rl') \<Rightarrow>
          (case admit_all rl' nows of
             (Inl e, rl'') \<Rightarrow> (Inl e, rl'')
           | (Inr ts, rl'') \<Rightarrow> (Inr (t # ts), rl'')))"

text \<open>How many of the admissions \<open>ts\<close> fall into the window that starts at \<open>t\<close>.\<close>

definition admitted_in_window :: "real \<Rightarrow> real list \<Rightarrow> real \<Rightarrow> nat" where
  "admitted_in_window w ts t = length (filter (\<lambda>u. t \<le> u \<and> u < t + w) ts)"

subsection \<open>Results and the parallel batch (\<^verbatim>\<open>report_generator.py\<close>, \<^verbatim>\<open>parallel_processor.py\<close>)\<close>

text \<open>The dataclass \<^verbatim>\<open>FileUpgradeResult\<close>.\<close>

record file_upgrade_result =
  file_path :: string
  success :: bool
  attempts :: int
  api_changes :: "string list"
  error :: "string option"
  diff :: "string option"

text \<open>The progress counters and the processor object that holds them.\<close>

record progress_counters =
  completed :: int
  total :: int
  failed :: int

record parallel_processor =
  max_workers :: int
  rate_limiter :: rate_limiter
  progress :: progress_counters

text \<open>
  \<^verbatim>\<open>ParallelProcessor.process_file_async\<close> for one file. \<open>outcome\<close> is what the call
  of \<^verbatim>\<open>process_func\<close> on that file does (it raises or it returns a result) and
  \<open>now\<close> is the clock reading of the limiter. An exception of the limiter is raised
  before the \<^verbatim>\<open>try\<close> and so leaves the coroutine; an exception of
  \<^verbatim>\<open>process_func\<close> is caught and turned into a failed result.
\<close>

definition process_file_async ::
  "parallel_processor \<Rightarrow> string \<Rightarrow> py_exception + file_upgrade_result \<Rightarrow> real \<Rightarrow>
     (py_exception + file_upgrade_result) \<times> parallel_processor" where
  "process_file_async pp path outcome now =
     (case wait_if_needed (rate_limiter pp) now of
        (Inl e, rl') \<Rightarrow> (Inl e, pp\<lparr>rate_limiter := rl'\<rparr>)
      | (Inr _, rl') \<Rightarrow>
          (let pp1 = pp\<lparr>rate_limiter := rl'\<rparr>; pr = progress pp1 in
           case outcome of
             Inr result \<Rightarrow>
               (Inr result,
                pp1\<lparr>progress := pr\<lparr>completed := completed pr + 1,
                                     failed := (if \<not> success result then failed pr + 1 else failed pr)\<rparr>\<rparr>)
           | Inl e \<Rightarrow>
               (Inr \<lparr> file_path = path, success = False, attempts = 0, api_changes = [],
                      error = Some (''Processing error: '' @ str_of_exception e), diff = None \<rparr>,
                pp1\<lparr>progress := pr\<lparr>completed := completed pr + 1, failed := failed pr + 1\<rparr>\<rparr>)))"

text \<open>
  The tasks that \<^verbatim>\<open>asyncio.gather(..., return_exceptions=True)\<close> collects: one per
  file, in the order of the list, each either a result or the exception that left its
  coroutine. The \<open>i\<close>-th task sees the outcome \<open>outcomes i\<close> of its call of
  \<^verbatim>\<open>process_func\<close> and the clock reading \<open>nows i\<close>; the interleaving of the
  tasks shows only in these.
\<close>

fun gather_tasks ::
  "parallel_processor \<Rightarrow> nat \<Rightarrow> string list \<Rightarrow> (nat \<Rightarrow> py_exception + file_upgrade_result) \<Rightarrow>
     (nat \<Rightarrow> real) \<Rightarrow> (py_exception + file_upgrade_result) list \<times> parallel_processor" where
  "gather_tasks pp i [] outcomes nows = ([], pp)"
| "gather_tasks pp i (path # paths) outcomes nows =
     (case process_file_async pp path (outcomes i) (nows i) of
        (r, pp') \<Rightarrow>
          (case gather_tasks pp' (Suc i) paths outcomes nows of
             (rs, pp'') \<Rightarrow> (r # rs, pp'')))"

text \<open>
  The loop over \<^verbatim>\<open>zip(files, results)\<close> that fills \<^verbatim>\<open>result_dict\<close>; an
  exception among the results is replaced by a failed result first.
\<close>

definition stored_result :: "string \<Rightarrow> py_exception + file_upgrade_result \<Rightarrow> file_upgrade_result" where
  "stored_result path result =
     (case result of
        Inl e \<Rightarrow> \<lparr> file_path = path, success = False, attempts = 0, api_changes = [],
                    error = Some (str_of_exception e), diff = None \<rparr>
      | Inr r \<Rightarrow> r)"

fun map_results ::
  "(string \<rightharpoonup> file_upgrade_result) \<Rightarrow> (string \<times> (py_exception + file_upgrade_result)) list \<Rightarrow>
     (string \<rightharpoonup> file_upgrade_result)" where
  "map_results result_dict [] = result_dict"
| "map_results result_dict ((path, result) # rest) =
     map_results (result_dict(path \<mapsto> stored_result path result)) rest"

text \<open>
  \<^verbatim>\<open>ParallelProcessor.process_batch\<close>: what the call does and the processor
  afterwards. The counters are reset first. Then \<^verbatim>\<open>asyncio.Semaphore(self.max_workers)\<close>
  raises for a negative value. With the value 0 no task ever gets past
  \<^verbatim>\<open>async with semaphore\<close>, so for a non-empty batch \<^verbatim>\<open>asyncio.gather\<close> never
  completes and the call does not return, which is the value \<open>None\<close>; for the empty
  batch \<^verbatim>\<open>asyncio.gather()\<close> completes at once. With a positive value every task
  gets its turn, and the call returns the result dictionary.
\<close>

definition process_batch ::
  "parallel_processor \<Rightarrow> string list \<Rightarrow> (nat \<Rightarrow> py_exception + file_upgrade_result) \<Rightarrow>
     (nat \<Rightarrow> real) \<Rightarrow>
     (py_exception + (string \<rightharpoonup> file_upgrade_result)) option \<times> parallel_processor" where
  "process_batch pp files outcomes nows =
     (let pp0 = pp\<lparr>progress := \<lparr>completed = 0, total = int (length files), failed = 0\<rparr>\<rparr> in
      if max_workers pp < 0
      then (Some (Inl (ValueError ''Semaphore initial value must be >= 0'')), pp0)
      else if max_workers pp = 0 \<and> files \<noteq> []
      then (None, pp0)
      else (case gather_tasks pp0 0 files outcomes nows of
              (results, pp') \<Rightarrow> (Some (Inr (map_results Map.empty (zip files results))), pp')))"

text \<open>
  The entry that a batch holds for the file at position \<open>i\<close>: what its own task
  produced, and nothing of any other task. \<open>limiter_raises\<close> says whether the limiter
  raised for that task.
\<close>

definition batch_entry ::
  "string \<Rightarrow> py_exception + file_upgrade_result \<Rightarrow> py_exception option \<Rightarrow> file_upgrade_result" where
  "batch_entry path outcome limiter_raises =
     (case limiter_raises of
        Some e \<Rightarrow> \<lparr> file_path = path, success = False, attempts = 0, api_changes = [],
                    error = Some (str_of_exception e), diff = None \<rparr>
      | None \<Rightarrow>
          (case outcome of
             Inr result \<Rightarrow> result
           | Inl e \<Rightarrow> \<lparr> file_path = path, success = False, attempts = 0, api_changes = [],
                        error = Some (''Processing error: '' @ str_of_exception e), diff = None \<rparr>))"

subsection \<open>The cache (\<^verbatim>\<open>cache_manager.py\<close>)\<close>

text \<open>
  The file system is a map from paths to file contents. The library functions that
  the cache calls are parameters: \<^verbatim>\<open>os.path.relpath\<close>, the hex digest of
  \<^verbatim>\<open>hashlib.md5\<close> and the text that \<^verbatim>\<open>json.dump\<close> writes.
  \<^verbatim>\<open>os.path.join\<close> and \<^verbatim>\<open>os.path.dirname\<close> are the POSIX ones.
\<close>

type_synonym file_system = "string \<rightharpoonup> string"

text \<open>
  The disk that the cache works on: the regular files that can be read, with their
  content, and what the operating system answers when the program makes a
  directory or opens a file for writing, which is \<open>None\<close> when the call succeeds
  and the exception that it raises otherwise. The directories themselves are not
  part of the state. A path that is there and cannot be read (a directory, a file
  without permission) is not in the map: the cache treats it as it treats a
  missing file, since it hashes to the empty string and is not restored from.
\<close>

record disk =
  d_files :: file_system
  d_makedirs :: "string \<Rightarrow> py_exception option"
  d_open_w :: "string \<Rightarrow> py_exception option"

text \<open>
  Files are opened in text mode with the default \<^verbatim>\<open>newline\<close>, on a POSIX system
  and with an encoding that has every character of the text. Writing stores the
  text as it is. Reading translates the line endings: a carriage return followed
  by a line feed, and a carriage return alone, both come back as one line feed.
  Once a file is open, reading and writing it succeed. What the methods print is
  left out.
\<close>

definition carriage_return :: char where
  "carriage_return = CHR 0x0D"

fun universal_newlines :: "string \<Rightarrow> string" where
  "universal_newlines [] = []"
| "universal_newlines [c] = (if c = carriage_return then [newline] else [c])"
| "universal_newlines (c # d # cs) =
     (if c = carriage_return \<and> d = newline then newline # universal_newlines cs
      else if c = carriage_return then newline # universal_newlines (d # cs)
      else c # universal_newlines (d # cs))"

definition read_text :: "disk \<Rightarrow> string \<Rightarrow> py_exception + string" where
  "read_text d path =
     (case d_files d path of
        None \<Rightarrow> Inl (OSError ''[Errno 2] No such file or directory'')
      | Some content \<Rightarrow> Inr (universal_newlines content))"

definition write_text :: "disk \<Rightarrow> string \<Rightarrow> string \<Rightarrow> py_exception option \<times> disk" where
  "write_text d path content =
     (case d_open_w d path of
        Some e \<Rightarrow> (Some e, d)
      | None \<Rightarrow> (None, d\<lparr>d_files := (d_files d)(path \<mapsto> content)\<rparr>))"

definition os_path_exists :: "disk \<Rightarrow> string \<Rightarrow> bool" where
  "os_path_exists d path \<longleftrightarrow> d_files d path \<noteq> None"

definition dirname :: "string \<Rightarrow> string" where
  "dirname p =
     (let head = rev (dropWhile (\<lambda>c. c \<noteq> CHR ''/'') (rev p)) in
      if head \<noteq> [] \<and> (\<exists>c \<in> set head. c \<noteq> CHR ''/'')
      then rev (dropWhile (\<lambda>c. c = CHR ''/'') (rev head))
      else head)"

record cache_entry =
  ce_success :: "bool option"
  ce_attempts :: int
  ce_timestamp :: string
  ce_input_hash :: "string option"
  ce_error :: "string option"
  ce_api_changes :: "string list"
  ce_cached_output :: "string option"

record library =
  relpath :: "string \<Rightarrow> string \<Rightarrow> string"
  md5_hexdigest :: "string \<Rightarrow> string"
  json_dump :: "(string \<rightharpoonup> cache_entry) \<Rightarrow> string"

definition path_join :: "string \<Rightarrow> string \<Rightarrow> string" where
  "path_join a b =
     (if b \<noteq> [] \<and> hd b = CHR ''/'' then b
      else if a = [] \<or> last a = CHR ''/'' then a @ b
      else a @ ''/'' @ b)"

text \<open>
  The manager object: \<^verbatim>\<open>repo_path\<close> and the \<^verbatim>\<open>"files"\<close> table of
  \<^verbatim>\<open>cache_data\<close>; \<^verbatim>\<open>cache_dir\<close> and \<^verbatim>\<open>cache_file\<close> are fixed by
  \<^verbatim>\<open>__init__\<close> from \<^verbatim>\<open>repo_path\<close>.
\<close>

record cache_manager =
  repo_path :: string
  cache_data :: "string \<rightharpoonup> cache_entry"

definition cache_dir :: "cache_manager \<Rightarrow> string" where
  "cache_dir cm = path_join (repo_path cm) ''.ml_upgrader_cache''"

definition cache_file :: "cache_manager \<Rightarrow> string" where
  "cache_file cm = path_join (cache_dir cm) ''upgrade_cache.json''"

text \<open>
  \<^verbatim>\<open>_save_cache\<close> makes the cache directory and rewrites the JSON file; an
  exception of either call leaves the method.
\<close>

definition save_cache :: "library \<Rightarrow> cache_manager \<Rightarrow> disk \<Rightarrow> py_exception option \<times> disk" where
  "save_cache lib cm d =
     (case d_makedirs d (cache_dir cm) of
        Some e \<Rightarrow> (Some e, d)
      | None \<Rightarrow> write_text d (cache_file cm) (json_dump lib (cache_data cm)))"

text \<open>
  \<^verbatim>\<open>_get_file_hash\<close> reads the file in binary mode; a file that cannot be read
  hashes to the empty string.
\<close>

definition get_file_hash :: "library \<Rightarrow> disk \<Rightarrow> string \<Rightarrow> string" where
  "get_file_hash lib d path =
     (case d_files d path of None \<Rightarrow> '''' | Some content \<Rightarrow> md5_hexdigest lib content)"

text \<open>\<^verbatim>\<open>is_file_cached\<close>, with the defaults of the two \<^verbatim>\<open>.get\<close> calls.\<close>

definition is_file_cached :: "library \<Rightarrow> cache_manager \<Rightarrow> disk \<Rightarrow> string \<Rightarrow> bool" where
  "is_file_cached lib cm d path =
     (let rel_path = relpath lib path (repo_path cm) in
      case cache_data cm rel_path of
        None \<Rightarrow> False
      | Some cached_entry \<Rightarrow>
          (let current_hash = get_file_hash lib d path;
               cached_hash = (case ce_input_hash cached_entry of None \<Rightarrow> '''' | Some h \<Rightarrow> h)
           in if current_hash \<noteq> cached_hash then False
              else if \<not> (case ce_success cached_entry of None \<Rightarrow> False | Some b \<Rightarrow> b) then False
              else True))"

text \<open>
  \<^verbatim>\<open>cache_result\<close>: the exception that leaves the method, if any, the manager and
  the disk afterwards. \<open>upgraded_code\<close> is \<open>None\<close> when the argument is left out,
  and \<open>stamp\<close> is the text of \<^verbatim>\<open>datetime.now().isoformat()\<close>. The entry is put
  into the table first. The output is stored only when it is a non-empty string and
  the result is a success; the entry gets its \<^verbatim>\<open>cached_output\<close> once the copy is
  written.
\<close>

definition cache_result ::
  "library \<Rightarrow> cache_manager \<Rightarrow> disk \<Rightarrow> string \<Rightarrow> file_upgrade_result \<Rightarrow>
     string option \<Rightarrow> string \<Rightarrow> py_exception option \<times> cache_manager \<times> disk" where
  "cache_result lib cm d path result upgraded_code stamp =
     (let rel_path = relpath lib path (repo_path cm);
          entry = \<lparr> ce_success = Some (success result),
                    ce_attempts = attempts result,
                    ce_timestamp = stamp,
                    ce_input_hash = Some (get_file_hash lib d path),
                    ce_error = error result,
                    ce_api_changes = api_changes result,
                    ce_cached_output = None \<rparr>;
          cm1 = cm\<lparr>cache_data := (cache_data cm)(rel_path \<mapsto> entry)\<rparr>;
          unsaved = (case save_cache lib cm1 d of (raised, d1) \<Rightarrow> (raised, cm1, d1))
      in case upgraded_code of
           None \<Rightarrow> unsaved
         | Some code \<Rightarrow>
             if code \<noteq> [] \<and> success result then
               (let code_cache_path = path_join (path_join (cache_dir cm) ''upgraded'') rel_path in
                case d_makedirs d (dirname code_cache_path) of
                  Some e \<Rightarrow> (Some e, cm1, d)
                | None \<Rightarrow>
                    (case write_text d code_cache_path code of
                       (Some e, d1) \<Rightarrow> (Some e, cm1, d1)
                     | (None, d1) \<Rightarrow>
                         (let cm2 = cm1\<lparr>cache_data :=
                                (cache_data cm1)(rel_path \<mapsto>
                                   entry\<lparr>ce_cached_output := Some code_cache_path\<rparr>)\<rparr>
                          in case save_cache lib cm2 d1 of (raised, d2) \<Rightarrow> (raised, cm2, d2))))
             else unsaved)"

text \<open>
  \<^verbatim>\<open>restore_from_cache\<close>: whether it restored, and the disk afterwards. Whatever
  the two \<^verbatim>\<open>open\<close> calls raise is caught, and the answer is then \<open>False\<close>.
\<close>

definition restore_from_cache ::
  "library \<Rightarrow> cache_manager \<Rightarrow> disk \<Rightarrow> string \<Rightarrow> string \<Rightarrow> bool \<times> disk" where
  "restore_from_cache lib cm d path output_path =
     (let rel_path = relpath lib path (repo_path cm) in
      case cache_data cm rel_path of
        None \<Rightarrow> (False, d)
      | Some cached_entry \<Rightarrow>
          (case ce_cached_output cached_entry of
             None \<Rightarrow> (False, d)
           | Some cached_output \<Rightarrow>
               if cached_output = [] \<or> \<not> os_path_exists d cached_output then (False, d)
               else (case read_text d cached_output of
                       Inl e \<Rightarrow> (False, d)
                     | Inr content \<Rightarrow>
                         (case write_text d output_path content of
                            (Some e, d1) \<Rightarrow> (False, d1)
                          | (None, d1) \<Rightarrow> (True, d1)))))"


subsection \<open>String methods used by the upgrader\<close>

text \<open>
  A string is a list of 8-bit characters, read as the code points below 256. On these,
  \<^verbatim>\<open>str.isspace\<close> (and the regular expression \<^verbatim>\<open>\s\<close>) and \<^verbatim>\<open>str.lower\<close> are
  the following.
\<close>

definition is_space :: "char \<Rightarrow> bool" where
  "is_space c \<longleftrightarrow> (of_char c :: nat) \<in> {9, 10, 11, 12, 13, 28, 29, 30, 31, 32, 133, 160}"

definition strip :: "string \<Rightarrow> string" where
  "strip s = rev (dropWhile is_space (rev (dropWhile is_space s)))"

definition lower_char :: "char \<Rightarrow> char" where
  "lower_char c =
     (let n = (of_char c :: nat) in
      if (65 \<le> n \<and> n \<le> 90) \<or> (192 \<le> n \<and> n \<le> 222 \<and> n \<noteq> 215) then char_of (n + 32) else c)"

definition lower :: "string \<Rightarrow> string" where
  "lower s = map lower_char s"

definition starts_with :: "string \<Rightarrow> string \<Rightarrow> bool" where
  "starts_with s pat \<longleftrightarrow> take (length pat) s = pat"

text \<open>\<^verbatim>\<open>pat in s\<close>.\<close>

fun contains_str :: "string \<Rightarrow> string \<Rightarrow> bool" where
  "contains_str pat [] \<longleftrightarrow> pat = []"
| "contains_str pat (c # cs) \<longleftrightarrow> starts_with (c # cs) pat \<or> contains_str pat cs"

text \<open>\<^verbatim>\<open>s.replace(pat, '')\<close>: the occurrences are removed from left to right.\<close>

fun remove_from :: "nat \<Rightarrow> string \<Rightarrow> string \<Rightarrow> string" where
  "remove_from skip pat [] = []"
| "remove_from skip pat (c # cs) =
     (if 0 < skip then remove_from (skip - 1) pat cs
      else if starts_with (c # cs) pat then remove_from (length pat - 1) pat cs
      else c # remove_from 0 pat cs)"

definition remove_all :: "string \<Rightarrow> string \<Rightarrow> string" where
  "remove_all pat s = (if pat = [] then s else remove_from 0 pat s)"

text \<open>The rest of \<open>s\<close> after the first occurrence of \<open>pat\<close>, and the part before it.\<close>

fun after_first :: "string \<Rightarrow> string \<Rightarrow> string option" where
  "after_first pat [] = (if pat = [] then Some [] else None)"
| "after_first pat (c # cs) =
     (if starts_with (c # cs) pat then Some (drop (length pat) (c # cs)) else after_first pat cs)"

fun before_first :: "string \<Rightarrow> string \<Rightarrow> string option" where
  "before_first pat [] = (if pat = [] then Some [] else None)"
| "before_first pat (c # cs) =
     (if starts_with (c # cs) pat then Some []
      else (case before_first pat cs of None \<Rightarrow> None | Some b \<Rightarrow> Some (c # b)))"

definition fence :: string where
  "fence = [CHR 0x60, CHR 0x60, CHR 0x60]"

text \<open>
  Group 1 of \<^verbatim>\<open>re.search(opening + r"\s*(.*?)```", s, re.DOTALL)\<close> for an opening
  that starts with the fence: the leftmost opening that has a closing fence behind
  it is the first opening at all, the white space after it is skipped, and the group
  runs up to the next fence.
\<close>

definition search_fenced :: "string \<Rightarrow> string \<Rightarrow> string option" where
  "search_fenced opening s =
     (case after_first opening s of
        None \<Rightarrow> None
      | Some rest \<Rightarrow> before_first fence (dropWhile is_space rest))"

text \<open>\<^verbatim>\<open>clean_llm_response\<close>.\<close>

definition clean_llm_response :: "string \<Rightarrow> string" where
  "clean_llm_response response =
     (case search_fenced (fence @ ''python'') response of
        Some g \<Rightarrow> strip g
      | None \<Rightarrow>
          (case search_fenced fence response of
             Some g \<Rightarrow> strip g
           | None \<Rightarrow> strip response))"

text \<open>The apology prefixes, tested on the lower-cased stripped text.\<close>

definition apology_prefixes :: "string list" where
  "apology_prefixes = [''i'' @ [CHR 0x27] @ ''m sorry'', ''im sorry'', ''sorry'', ''i cannot'',
                       ''i can'' @ [CHR 0x27] @ ''t'']"

definition starts_with_any :: "string \<Rightarrow> string list \<Rightarrow> bool" where
  "starts_with_any s pats \<longleftrightarrow> (\<exists>pat \<in> set pats. starts_with s pat)"

text \<open>What an f-string prints for an optional text.\<close>

definition str_of_option :: "string option \<Rightarrow> string" where
  "str_of_option x = (case x of None \<Rightarrow> ''None'' | Some s \<Rightarrow> s)"

subsection \<open>Chunking by declarations (\<^verbatim>\<open>chunker.py\<close>)\<close>

text \<open>
  What the chunker reads off the tree that \<^verbatim>\<open>ast.parse\<close> returns: the top-level
  statements with their kind, name and line numbers, and the line numbers of the
  import statements in the order of \<^verbatim>\<open>ast.walk\<close>. Line numbers count from 1.
\<close>

datatype node_kind = FunctionDef | AsyncFunctionDef | ClassDef | OtherNode

record ast_node =
  node_kind :: node_kind
  node_name :: string
  lineno :: nat
  end_lineno :: "nat option"

record ast_module =
  body :: "ast_node list"
  import_linenos :: "nat list"

definition extract_imports :: "ast_module \<Rightarrow> string list \<Rightarrow> string" where
  "extract_imports tree lines =
     join_lines (map (\<lambda>l. if l = 0 then last lines else lines ! (l - 1))
                  (filter (\<lambda>l. l \<le> length lines) (import_linenos tree)))"

text \<open>The loop of \<^verbatim>\<open>chunk_by_functions\<close> over the top-level statements.\<close>

fun chunk_nodes ::
  "int \<Rightarrow> string list \<Rightarrow> string \<Rightarrow> ast_node list \<Rightarrow> py_exception + chunk list" where
  "chunk_nodes max_lines lines imports [] = Inr []"
| "chunk_nodes max_lines lines imports (node # nodes) =
     (if node_kind node = FunctionDef \<or> node_kind node = ClassDef \<or> node_kind node = AsyncFunctionDef
      then
        (let start = lineno node - 1;
             stop = (case end_lineno node of
                       None \<Rightarrow> length lines
                     | Some e \<Rightarrow> if e = 0 then length lines else e);
             chunk_code = join_lines (py_slice lines start (int stop))
         in if int stop - int start > max_lines
            then (case split_large_chunk max_lines chunk_code start imports of
                    Inl e \<Rightarrow> Inl e
                  | Inr sub_chunks \<Rightarrow>
                      (case chunk_nodes max_lines lines imports nodes of
                         Inl e \<Rightarrow> Inl e
                       | Inr rest \<Rightarrow> Inr (sub_chunks @ rest)))
            else (case chunk_nodes max_lines lines imports nodes of
                    Inl e \<Rightarrow> Inl e
                  | Inr rest \<Rightarrow>
                      Inr (\<lparr> c_type = (if node_kind node = FunctionDef \<or> node_kind node = AsyncFunctionDef
                                        then ''function'' else ''class''),
                              c_name = node_name node,
                              c_code = chunk_code,
                              c_start_line = start,
                              c_end_line = stop,
                              c_imports = imports \<rparr> # rest)))
      else chunk_nodes max_lines lines imports nodes)"

text \<open>
  \<^verbatim>\<open>CodeChunker.chunk_by_functions\<close>; \<open>parse\<close> stands for \<^verbatim>\<open>ast.parse\<close>, and only
  its \<^verbatim>\<open>SyntaxError\<close> is caught.
\<close>

definition chunk_by_functions ::
  "int \<Rightarrow> (string \<Rightarrow> py_exception + ast_module) \<Rightarrow> string \<Rightarrow> py_exception + chunk list" where
  "chunk_by_functions max_lines parse code =
     (case parse code of
        Inl (SyntaxError m) \<Rightarrow> chunk_by_lines max_lines code
      | Inl e \<Rightarrow> Inl e
      | Inr tree \<Rightarrow>
          (let lines = split_lines code;
               imports = extract_imports tree lines
           in case chunk_nodes max_lines lines imports (body tree) of
                Inl e \<Rightarrow> Inl e
              | Inr chunks \<Rightarrow>
                  if chunks = []
                  then Inr [\<lparr> c_type = ''full'', c_name = ''entire_file'', c_code = code,
                              c_start_line = 0, c_end_line = length lines, c_imports = '''' \<rparr>]
                  else Inr chunks))"

subsection \<open>The upgrader (\<^verbatim>\<open>agentic_upgrader.py\<close>)\<close>

text \<open>
  The modules \<^verbatim>\<open>utils\<close>, \<^verbatim>\<open>llm_interface\<close> and \<^verbatim>\<open>validator\<close> are
  collaborators of the upgrader and enter as parameters, each call either raising
  an exception or returning; so do \<^verbatim>\<open>ast.parse\<close>, \<^verbatim>\<open>os.path\<close> and the two
  retry counts read from the environment. The answer of the language model may
  differ from call to call, so \<open>call_llm\<close> takes the number of calls made before.
  \<open>write_file\<close> returns the file system it leaves behind together with the
  exception it raised, if any.
\<close>

record collaborators =
  build_prompt :: "string \<Rightarrow> string option \<Rightarrow> py_exception + string"
  call_llm :: "nat \<Rightarrow> string \<Rightarrow> py_exception + string"
  write_file :: "file_system \<Rightarrow> string \<Rightarrow> string \<Rightarrow> py_exception option \<times> file_system"
  read_file :: "file_system \<Rightarrow> string \<Rightarrow> py_exception + string"
  validate_code :: "file_system \<Rightarrow> string \<Rightarrow> py_exception + (bool \<times> string option)"
  validate_syntax :: "string \<Rightarrow> py_exception + (bool \<times> string option)"
  extract_api_changes :: "string \<Rightarrow> string \<Rightarrow> py_exception + string list"
  generate_diff :: "string \<Rightarrow> string \<Rightarrow> string \<Rightarrow> py_exception + string"
  should_skip_for_upgrade :: "file_system \<Rightarrow> string \<Rightarrow> py_exception + string option"
  path_exists :: "file_system \<Rightarrow> string \<Rightarrow> bool"
  basename :: "string \<Rightarrow> string"
  ast_parse :: "string \<Rightarrow> py_exception + ast_module"
  max_retries :: int
  max_retries_chunk :: int

text \<open>What a run changes: the files, and how often the language model was called.\<close>

record world =
  w_files :: file_system
  w_llm_calls :: nat

text \<open>The test on the text of an exception in \<^verbatim>\<open>_upgrade_standard\<close>.\<close>

definition is_token_limit_error :: "string \<Rightarrow> bool" where
  "is_token_limit_error msg \<longleftrightarrow>
     contains_str ''token'' (lower msg) \<or> contains_str ''context_length'' (lower msg) \<or>
     contains_str ''maximum context length'' (lower msg)"

definition token_limit_result :: "string \<Rightarrow> int \<Rightarrow> string \<Rightarrow> file_upgrade_result" where
  "token_limit_result input_path attempt msg =
     \<lparr> file_path = input_path, success = False, attempts = attempt, api_changes = [],
       error = Some (''Token limit exceeded: '' @ msg), diff = None \<rparr>"

text \<open>
  The two rejection checks of \<^verbatim>\<open>_upgrade_standard\<close> on the cleaned response: the
  message of the check that rejects it, if one does.
\<close>

definition rejection :: "string \<Rightarrow> string option" where
  "rejection new_code =
     (let stripped_code = strip new_code in
      if stripped_code = [] then Some ''LLM returned empty response''
      else if starts_with_any (lower stripped_code) apology_prefixes \<or>
              starts_with stripped_code ''# upgraded code here''
           then Some ''LLM returned placeholder text instead of upgraded code''
      else None)"

text \<open>
  How one pass through the body of the \<^verbatim>\<open>for\<close> loop ends: with a
  \<^verbatim>\<open>return\<close>, or with the values of \<^verbatim>\<open>current_code\<close> and \<^verbatim>\<open>error\<close> for the
  next pass.
\<close>

datatype attempt_outcome =
    Return file_upgrade_result
  | Continue string "string option"

text \<open>The \<^verbatim>\<open>except\<close> clause of \<^verbatim>\<open>_upgrade_standard\<close>.\<close>

definition handle_exception ::
  "string \<Rightarrow> int \<Rightarrow> string \<Rightarrow> py_exception \<Rightarrow> attempt_outcome" where
  "handle_exception input_path attempt current_code e =
     (let msg = str_of_exception e in
      if is_token_limit_error msg then Return (token_limit_result input_path attempt msg)
      else Continue current_code (Some msg))"

text \<open>The body of the loop of \<^verbatim>\<open>_upgrade_standard\<close> for the attempt number \<open>attempt\<close>.\<close>

definition standard_attempt ::
  "collaborators \<Rightarrow> string \<Rightarrow> string \<Rightarrow> string \<Rightarrow> int \<Rightarrow> string \<Rightarrow> string option \<Rightarrow> world \<Rightarrow>
     attempt_outcome \<times> world" where
  "standard_attempt env input_path output_path old_code attempt current_code err w =
     (case build_prompt env current_code err of
        Inl e \<Rightarrow> (handle_exception input_path attempt current_code e, w)
      | Inr prompt \<Rightarrow>
          (let w1 = w\<lparr>w_llm_calls := Suc (w_llm_calls w)\<rparr> in
           case call_llm env (w_llm_calls w) prompt of
             Inl e \<Rightarrow> (handle_exception input_path attempt current_code e, w1)
           | Inr response \<Rightarrow>
               (let new_code = clean_llm_response response in
                case rejection new_code of
                  Some msg \<Rightarrow> (Continue current_code (Some msg), w1)
                | None \<Rightarrow>
                    (case write_file env (w_files w1) output_path new_code of
                       (Some e, fs') \<Rightarrow>
                         (handle_exception input_path attempt current_code e, w1\<lparr>w_files := fs'\<rparr>)
                     | (None, fs') \<Rightarrow>
                         (let w2 = w1\<lparr>w_files := fs'\<rparr> in
                          case validate_code env fs' output_path of
                            Inl e \<Rightarrow> (handle_exception input_path attempt current_code e, w2)
                          | Inr (is_valid, verr) \<Rightarrow>
                              if is_valid then
                                (case extract_api_changes env old_code new_code of
                                   Inl e \<Rightarrow> (handle_exception input_path attempt current_code e, w2)
                                 | Inr changes \<Rightarrow>
                                     (case generate_diff env old_code new_code (basename env input_path) of
                                        Inl e \<Rightarrow> (handle_exception input_path attempt current_code e, w2)
                                      | Inr d \<Rightarrow>
                                          (Return \<lparr> file_path = input_path, success = True,
                                                    attempts = attempt, api_changes = changes,
                                                    error = None, diff = Some d \<rparr>, w2)))
                              else (Continue new_code verr, w2))))))"

text \<open>
  The \<^verbatim>\<open>for\<close> loop of \<^verbatim>\<open>_upgrade_standard\<close> over the attempt numbers that are
  left, and the failure result behind the loop.
\<close>

fun standard_loop ::
  "collaborators \<Rightarrow> string \<Rightarrow> string \<Rightarrow> string \<Rightarrow> int \<Rightarrow> int list \<Rightarrow> string \<Rightarrow> string option \<Rightarrow>
     world \<Rightarrow> file_upgrade_result \<times> world" where
  "standard_loop env input_path output_path old_code retries [] current_code err w =
     (\<lparr> file_path = input_path, success = False, attempts = retries, api_changes = [],
        error = Some (case err of
                        None \<Rightarrow> ''Maximum retries exceeded''
                      | Some msg \<Rightarrow> if msg = [] then ''Maximum retries exceeded'' else msg),
        diff = None \<rparr>, w)"
| "standard_loop env input_path output_path old_code retries (attempt # rest) current_code err w =
     (case standard_attempt env input_path output_path old_code attempt current_code err w of
        (Return result, w') \<Rightarrow> (result, w')
      | (Continue current_code' err', w') \<Rightarrow>
          standard_loop env input_path output_path old_code retries rest current_code' err' w')"

text \<open>\<^verbatim>\<open>_upgrade_standard\<close>; \<^verbatim>\<open>range(1, MAX_RETRIES + 1)\<close> is the list \<open>[1..MAX_RETRIES]\<close>.\<close>

definition upgrade_standard ::
  "collaborators \<Rightarrow> string \<Rightarrow> string \<Rightarrow> string \<Rightarrow> int \<Rightarrow> world \<Rightarrow> file_upgrade_result \<times> world" where
  "upgrade_standard env input_path output_path old_code retries w =
     standard_loop env input_path output_path old_code retries [1..retries] old_code None w"

text \<open>The accumulators of \<^verbatim>\<open>_upgrade_chunked\<close>.\<close>

record chunk_progress =
  upgraded_chunks :: "string list"
  all_api_changes :: "string list"
  total_attempts :: int
  failed_chunks :: "string list"

text \<open>
  The inner \<^verbatim>\<open>for\<close> loop of \<^verbatim>\<open>_upgrade_chunked\<close> for one chunk: whether the
  chunk was upgraded, the accumulators and the number of model calls afterwards.
\<close>

fun chunk_attempts ::
  "collaborators \<Rightarrow> chunk \<Rightarrow> string \<Rightarrow> int list \<Rightarrow> string option \<Rightarrow> chunk_progress \<Rightarrow> nat \<Rightarrow>
     bool \<times> chunk_progress \<times> nat" where
  "chunk_attempts env chunk chunk_code [] err acc n = (False, acc, n)"
| "chunk_attempts env chunk chunk_code (attempt # rest) err acc n =
     (case build_prompt env chunk_code err of
        Inl e \<Rightarrow> chunk_attempts env chunk chunk_code rest (Some (str_of_exception e)) acc n
      | Inr prompt \<Rightarrow>
          (case call_llm env n prompt of
             Inl e \<Rightarrow> chunk_attempts env chunk chunk_code rest (Some (str_of_exception e)) acc (Suc n)
           | Inr response \<Rightarrow>
               (let upgraded = clean_llm_response response in
                if strip upgraded = []
                then chunk_attempts env chunk chunk_code rest (Some ''Empty response'') acc (Suc n)
                else if starts_with_any (lower (strip upgraded)) apology_prefixes
                then chunk_attempts env chunk chunk_code rest (Some ''LLM returned placeholder text'') acc (Suc n)
                else
                  (case validate_syntax env upgraded of
                     Inl e \<Rightarrow>
                       chunk_attempts env chunk chunk_code rest (Some (str_of_exception e)) acc (Suc n)
                   | Inr (is_valid, verr) \<Rightarrow>
                       if is_valid then
                         (let acc1 = acc\<lparr>upgraded_chunks := upgraded_chunks acc @
                                      [if c_imports chunk \<noteq> []
                                       then strip (remove_all (c_imports chunk) upgraded)
                                       else upgraded]\<rparr>
                          in case extract_api_changes env (c_code chunk) upgraded of
                               Inl e \<Rightarrow>
                                 chunk_attempts env chunk chunk_code rest (Some (str_of_exception e))
                                   acc1 (Suc n)
                             | Inr chunk_changes \<Rightarrow>
                                 (True,
                                  acc1\<lparr>all_api_changes := all_api_changes acc1 @ chunk_changes,
                                        total_attempts := total_attempts acc1 + attempt\<rparr>,
                                  Suc n))
                       else chunk_attempts env chunk chunk_code rest verr acc (Suc n)))))"

text \<open>The outer loop of \<^verbatim>\<open>_upgrade_chunked\<close> over the chunks.\<close>

fun process_chunks ::
  "collaborators \<Rightarrow> chunk list \<Rightarrow> chunk_progress \<Rightarrow> nat \<Rightarrow> chunk_progress \<times> nat" where
  "process_chunks env [] acc n = (acc, n)"
| "process_chunks env (chunk # chunks) acc n =
     (let chunk_code = (if c_imports chunk \<noteq> []
                        then c_imports chunk @ [newline, newline] @ c_code chunk
                        else c_code chunk)
      in case chunk_attempts env chunk chunk_code [1..max_retries_chunk env] None acc n of
           (chunk_upgraded, acc1, n1) \<Rightarrow>
             if \<not> chunk_upgraded
             then process_chunks env chunks
                    (acc1\<lparr>upgraded_chunks := upgraded_chunks acc1 @ [c_code chunk],
                          failed_chunks := failed_chunks acc1 @ [c_name chunk],
                          total_attempts := total_attempts acc1 + max_retries_chunk env\<rparr>) n1
             else process_chunks env chunks acc1 n1)"

text \<open>The text that is written: the imports of the first chunk, then all chunks.\<close>

definition reassemble :: "chunk \<Rightarrow> string list \<Rightarrow> string" where
  "reassemble first_chunk chunks_out =
     join_with [newline, newline]
       ((if c_imports first_chunk \<noteq> [] then [c_imports first_chunk] else []) @ chunks_out)"

text \<open>The two flags and the error text at the end of \<^verbatim>\<open>_upgrade_chunked\<close>.\<close>

definition chunked_success :: "bool \<Rightarrow> nat \<Rightarrow> nat \<Rightarrow> bool" where
  "chunked_success is_valid n_chunks n_failed \<longleftrightarrow>
     is_valid \<and> (real n_chunks - real n_failed) / real n_chunks \<ge> 0.8"

definition chunked_error :: "string list \<Rightarrow> bool \<Rightarrow> string option \<Rightarrow> string option" where
  "chunked_error failed_names is_valid final_error =
     (let result_error = (if failed_names \<noteq> [] then Some (''Failed chunks: '' @ join_with '', '' failed_names)
                          else None)
      in if \<not> is_valid
         then (case result_error of
                 Some msg \<Rightarrow> if msg \<noteq> []
                             then Some (msg @ ''; Validation error: '' @ str_of_option final_error)
                             else Some (''Validation error: '' @ str_of_option final_error)
               | None \<Rightarrow> Some (''Validation error: '' @ str_of_option final_error))
         else result_error)"

text \<open>
  \<^verbatim>\<open>_upgrade_chunked\<close>. An exception outside the \<^verbatim>\<open>try\<close> of the inner loop leaves
  the function.
\<close>

definition upgrade_chunked ::
  "collaborators \<Rightarrow> string \<Rightarrow> string \<Rightarrow> string \<Rightarrow> world \<Rightarrow>
     (py_exception + file_upgrade_result) \<times> world" where
  "upgrade_chunked env input_path output_path old_code w =
     (case chunk_by_functions 300 (ast_parse env) old_code of
        Inl e \<Rightarrow> (Inl e, w)
      | Inr chunks \<Rightarrow>
          (case process_chunks env chunks
                  \<lparr>upgraded_chunks = [], all_api_changes = [], total_attempts = 0, failed_chunks = []\<rparr>
                  (w_llm_calls w) of
             (acc, n) \<Rightarrow>
               (let w1 = w\<lparr>w_llm_calls := n\<rparr> in
                case chunks of
                  [] \<Rightarrow> (Inl (IndexError ''list index out of range''), w1)
                | first_chunk # _ \<Rightarrow>
                    (let final_code = reassemble first_chunk (upgraded_chunks acc) in
                     case write_file env (w_files w1) output_path final_code of
                       (Some e, fs') \<Rightarrow> (Inl e, w1\<lparr>w_files := fs'\<rparr>)
                     | (None, fs') \<Rightarrow>
                         (let w2 = w1\<lparr>w_files := fs'\<rparr> in
                          case validate_code env fs' output_path of
                            Inl e \<Rightarrow> (Inl e, w2)
                          | Inr (is_valid, final_error) \<Rightarrow>
                              (let ok = chunked_success is_valid (length chunks) (length (failed_chunks acc));
                                   result_error = chunked_error (failed_chunks acc) is_valid final_error
                               in if ok
                                  then (case generate_diff env old_code final_code (basename env input_path) of
                                          Inl e \<Rightarrow> (Inl e, w2)
                                        | Inr d \<Rightarrow>
                                            (Inr \<lparr> file_path = input_path, success = True,
                                                   attempts = total_attempts acc,
                                                   api_changes = all_api_changes acc,
                                                   error = result_error, diff = Some d \<rparr>, w2))
                                  else (Inr \<lparr> file_path = input_path, success = False,
                                              attempts = total_attempts acc,
                                              api_changes = all_api_changes acc,
                                              error = result_error, diff = None \<rparr>, w2)))))))"

text \<open>The test of \<^verbatim>\<open>upgrade_file\<close> that sends a medium file to the chunked upgrade.\<close>

definition token_limit_detected :: "file_upgrade_result \<Rightarrow> bool" where
  "token_limit_detected result \<longleftrightarrow>
     \<not> success result \<and>
     (case error result of
        None \<Rightarrow> False
      | Some msg \<Rightarrow> msg \<noteq> [] \<and>
          (contains_str ''token'' (lower msg) \<or> contains_str ''context_length'' (lower msg)))"

text \<open>
  \<^verbatim>\<open>upgrade_file\<close>. The validation before the upgrade only prints, and an exception
  of it is caught, so it does not show in the model.
\<close>

definition upgrade_file ::
  "collaborators \<Rightarrow> string \<Rightarrow> string \<Rightarrow> world \<Rightarrow> (py_exception + file_upgrade_result) \<times> world" where
  "upgrade_file env input_path output_path w =
     (if \<not> path_exists env (w_files w) input_path
      then (Inr \<lparr> file_path = input_path, success = False, attempts = 0, api_changes = [],
                  error = Some ''Input file not found'', diff = None \<rparr>, w)
      else
        (case should_skip_for_upgrade env (w_files w) input_path of
           Inl e \<Rightarrow> (Inl e, w)
         | Inr skip_reason \<Rightarrow>
             if skip_reason \<noteq> None \<and> skip_reason \<noteq> Some []
             then (Inr \<lparr> file_path = input_path, success = False, attempts = 0, api_changes = [],
                         error = skip_reason, diff = None \<rparr>, w)
             else
               (case read_file env (w_files w) input_path of
                  Inl e \<Rightarrow> (Inl e, w)
                | Inr old_code \<Rightarrow>
                    (let line_count = length (split_lines old_code) in
                     if line_count < 1000
                     then (case upgrade_standard env input_path output_path old_code (max_retries env) w of
                             (result, w') \<Rightarrow> (Inr result, w'))
                     else if line_count < 3000
                     then (case upgrade_standard env input_path output_path old_code (max_retries env) w of
                             (result, w') \<Rightarrow>
                               if token_limit_detected result
                               then upgrade_chunked env input_path output_path old_code w'
                               else (Inr result, w'))
                     else upgrade_chunked env input_path output_path old_code w))))"

subsection \<open>Sample collaborators for the evaluations\<close>

text \<open>
  A simple set of collaborators on which the functions above can be run: the model
  answers its \<open>n\<close>-th call with \<open>llm n\<close>, the validators judge a text by
  \<open>validate\<close>, files are written as they are, every text parses to a module
  without declarations, and \<open>code\<close> is what reading any existing file returns.
\<close>

definition sample_env ::
  "(nat \<Rightarrow> py_exception + string) \<Rightarrow> (string \<Rightarrow> bool \<times> string option) \<Rightarrow> collaborators" where
  "sample_env llm validate =
     \<lparr> build_prompt = (\<lambda>code err. Inr (str_of_option err @ ''|'' @ code)),
       call_llm = (\<lambda>n prompt. llm n),
       write_file = (\<lambda>fs path content. (None, fs(path \<mapsto> content))),
       read_file = (\<lambda>fs path. case fs path of
                                 None \<Rightarrow> Inl (Exception ''no such file'')
                               | Some content \<Rightarrow> Inr content),
       validate_code = (\<lambda>fs path. case fs path of
                                     None \<Rightarrow> Inl (Exception ''no such file'')
                                   | Some content \<Rightarrow> Inr (validate content)),
       validate_syntax = (\<lambda>content. Inr (validate content)),
       extract_api_changes = (\<lambda>old new. Inr []),
       generate_diff = (\<lambda>old new name. Inr (''diff of '' @ name)),
       should_skip_for_upgrade = (\<lambda>fs path. Inr None),
       path_exists = (\<lambda>fs path. fs path \<noteq> None),
       basename = (\<lambda>path. path),
       ast_parse = (\<lambda>code. Inr \<lparr>body = [], import_linenos = []\<rparr>),
       max_retries = 5,
       max_retries_chunk = 3 \<rparr>"

subsection \<open>The dependency analyzer (\<^verbatim>\<open>dependency_analyzer.py\<close>)\<close>

text \<open>
  A dictionary whose order matters is a list of pairs with the newest key last. The
  dependency graph maps a file to the files it depends on; the set of dependencies
  is given as the list in which Python iterates over it. A file without an entry
  has no dependencies (the graph is a \<^verbatim>\<open>defaultdict(set)\<close>).
\<close>

type_synonym dep_graph = "(string \<times> string list) list"

definition deps_of :: "dep_graph \<Rightarrow> string \<Rightarrow> string list" where
  "deps_of g f = (case map_of g f of None \<Rightarrow> [] | Some ds \<Rightarrow> ds)"

record analyzer =
  file_imports :: "(string \<times> string list) list"
  dependency_graph :: dep_graph

text \<open>\<^verbatim>\<open>levels[file_path] = level\<close> on the dictionary of levels.\<close>

fun dict_set :: "(string \<times> int) list \<Rightarrow> string \<Rightarrow> int \<Rightarrow> (string \<times> int) list" where
  "dict_set [] k v = [(k, v)]"
| "dict_set ((k', v') # rest) k v = (if k' = k then (k, v) # rest else (k', v') # dict_set rest k v)"

text \<open>All files that occur in the graph, as keys or as dependencies.\<close>

definition graph_nodes :: "dep_graph \<Rightarrow> string set" where
  "graph_nodes g = set (map fst g) \<union> (\<Union>ds \<in> set (map snd g). set ds)"

text \<open>
  The inner function \<^verbatim>\<open>get_level\<close> of \<^verbatim>\<open>get_dependency_levels\<close>, with the
  dictionary \<^verbatim>\<open>levels\<close> that it shares with its caller passed in and out, and the
  generator \<^verbatim>\<open>get_level(dep, visiting.copy()) for dep in deps\<close> as a second function.
  \<^verbatim>\<open>max\<close> is only ever taken of a non-empty collection.
\<close>

function get_level ::
  "dep_graph \<Rightarrow> string \<Rightarrow> string set \<Rightarrow> (string \<times> int) list \<Rightarrow> int \<times> (string \<times> int) list"
and get_levels ::
  "dep_graph \<Rightarrow> string list \<Rightarrow> string set \<Rightarrow> (string \<times> int) list \<Rightarrow> int list \<times> (string \<times> int) list"
where
  "get_level g path visiting levels =
     (case map_of levels path of
        Some l \<Rightarrow> (l, levels)
      | None \<Rightarrow>
          if path \<in> visiting
          then (case levels of
                  [] \<Rightarrow> (0, levels)
                | (k, v) # rest \<Rightarrow> (fold max (map snd rest) v + 1, levels))
          else
            (case deps_of g path of
               [] \<Rightarrow> (0, dict_set levels path 0)
             | dep # deps \<Rightarrow>
                 (case get_levels g (dep # deps) (insert path visiting) levels of
                    (ls, levels') \<Rightarrow>
                      (let level = fold max (tl ls) (hd ls) + 1
                       in (level, dict_set levels' path level)))))"
| "get_levels g [] visiting levels = ([], levels)"
| "get_levels g (dep # deps) visiting levels =
     (case get_level g dep visiting levels of
        (l, levels1) \<Rightarrow>
          (case get_levels g deps visiting levels1 of
             (ls, levels2) \<Rightarrow> (l # ls, levels2)))"
  by pat_completeness auto

lemma deps_in_graph_nodes: "deps_of g f = d # ds \<Longrightarrow> f \<in> graph_nodes g"
  by (auto simp: deps_of_def graph_nodes_def split: option.splits dest!: map_of_SomeD intro: rev_image_eqI)

lemma finite_graph_nodes: "finite (graph_nodes g)"
  by (simp add: graph_nodes_def)

termination get_level
proof (relation "inv_image (less_than <*lex*> less_than)
    (\<lambda>x. case x of
        Inl (g, f, visiting, levels) \<Rightarrow> (card (graph_nodes g - visiting), 0)
      | Inr (g, ds, visiting, levels) \<Rightarrow> (card (graph_nodes g - visiting), Suc (length ds)))")
  show "wf (inv_image (less_than <*lex*> less_than)
    (\<lambda>x. case x of
        Inl (g, f, visiting, levels) \<Rightarrow> (card (graph_nodes g - visiting), 0::nat)
      | Inr (g, ds, visiting, levels) \<Rightarrow> (card (graph_nodes g - visiting), Suc (length ds))))"
    by (intro wf_inv_image wf_lex_prod wf_less_than)
next
  fix g :: dep_graph and path visiting and levels :: "(string \<times> int) list" and dep deps
  assume "path \<notin> visiting" and d: "deps_of g path = dep # deps"
  then have "path \<in> graph_nodes g - visiting"
    using deps_in_graph_nodes [OF d] by simp
  then have "card (graph_nodes g - insert path visiting) < card (graph_nodes g - visiting)"
    using finite_graph_nodes [of g]
    by (metis Diff_insert card_Diff1_less finite_Diff)
  then show "(Inr (g, dep # deps, insert path visiting, levels), Inl (g, path, visiting, levels))
      \<in> inv_image (less_than <*lex*> less_than)
    (\<lambda>x. case x of
        Inl (g, f, visiting, levels) \<Rightarrow> (card (graph_nodes g - visiting), 0)
      | Inr (g, ds, visiting, levels) \<Rightarrow> (card (graph_nodes g - visiting), Suc (length ds)))"
    by simp
qed simp_all

declare get_level.simps [simp del] get_levels.simps [simp del]

text \<open>\<^verbatim>\<open>get_dependency_levels\<close>: one call of \<^verbatim>\<open>get_level\<close> per key of \<^verbatim>\<open>file_imports\<close>.\<close>

fun levels_loop :: "dep_graph \<Rightarrow> string list \<Rightarrow> (string \<times> int) list \<Rightarrow> (string \<times> int) list" where
  "levels_loop g [] levels = levels"
| "levels_loop g (path # rest) levels =
     levels_loop g rest (snd (get_level g path {} levels))"

definition get_dependency_levels :: "analyzer \<Rightarrow> (string \<times> int) list" where
  "get_dependency_levels a =
     levels_loop (dependency_graph a) (map fst (file_imports a)) []"

text \<open>
  \<^verbatim>\<open>DependencyBatchProcessor.group_by_level\<close> on the dictionary of levels, and the
  order in which \<^verbatim>\<open>process_by_levels\<close> takes the groups.
\<close>

fun add_to_group :: "(int \<times> string list) list \<Rightarrow> int \<Rightarrow> string \<Rightarrow> (int \<times> string list) list" where
  "add_to_group [] level f = [(level, [f])]"
| "add_to_group ((l, fs) # rest) level f =
     (if l = level then (l, fs @ [f]) # rest else (l, fs) # add_to_group rest level f)"

fun group_loop ::
  "(string \<times> int) list \<Rightarrow> string list \<Rightarrow> (int \<times> string list) list \<Rightarrow> (int \<times> string list) list" where
  "group_loop dependency_levels [] groups = groups"
| "group_loop dependency_levels (f # fs) groups =
     (let level = (case map_of dependency_levels f of None \<Rightarrow> 0 | Some l \<Rightarrow> l)
      in group_loop dependency_levels fs (add_to_group groups level f))"

definition group_by_level :: "(string \<times> int) list \<Rightarrow> string list \<Rightarrow> (int \<times> string list) list" where
  "group_by_level dependency_levels files = group_loop dependency_levels files []"

definition processing_groups :: "(string \<times> int) list \<Rightarrow> string list \<Rightarrow> string list list" where
  "processing_groups dependency_levels files =
     (let grouped = group_by_level dependency_levels files
      in map (\<lambda>level. case map_of grouped level of None \<Rightarrow> [] | Some fs \<Rightarrow> fs)
           (sort (map fst grouped)))"

text \<open>The edges of the graph: \<open>(a, b)\<close> when \<open>a\<close> depends on \<open>b\<close>.\<close>

definition dep_edges :: "dep_graph \<Rightarrow> (string \<times> string) set" where
  "dep_edges g = {(a, b). b \<in> set (deps_of g a)}"

text \<open>
  The rule of level assignment, as a property of a dictionary of levels: a file
  without dependencies has level 0, and any other file has one more than the
  greatest level of its dependencies, all of which have a level.
\<close>

definition follows_level_rule :: "dep_graph \<Rightarrow> (string \<times> int) list \<Rightarrow> bool" where
  "follows_level_rule g levels \<longleftrightarrow>
     (\<forall>a la. map_of levels a = Some la \<longrightarrow>
        (deps_of g a = [] \<longrightarrow> la = 0) \<and>
        (deps_of g a \<noteq> [] \<longrightarrow>
           (\<forall>d \<in> set (deps_of g a). map_of levels d \<noteq> None) \<and>
           la = Max ((\<lambda>d. the (map_of levels d)) ` set (deps_of g a)) + 1))"

text \<open>
  \<^verbatim>\<open>_detect_cycles\<close>. Its state: the sets \<^verbatim>\<open>visited\<close> and \<^verbatim>\<open>rec_stack\<close>, the
  list \<^verbatim>\<open>cycles\<close>, and the keys of the dependency graph, which grow: looking up a
  file that has no entry in a \<^verbatim>\<open>defaultdict\<close> inserts an empty entry for it. The
  dependencies of a file are not changed by that, so they are read from the graph
  \<open>g\<close> as it was at the start.
\<close>

record dfs_state =
  visited :: "string set"
  rec_stack :: "string set"
  cycles :: "string list list"
  graph_keys :: "string list"

definition touch_key :: "dfs_state \<Rightarrow> string \<Rightarrow> dfs_state" where
  "touch_key st node =
     (if node \<in> set (graph_keys st) then st else st\<lparr>graph_keys := graph_keys st @ [node]\<rparr>)"

text \<open>
  The inner function \<^verbatim>\<open>dfs\<close> and its loop over the neighbours. \<open>path\<close> in the
  loop is the path after \<^verbatim>\<open>path.append(node)\<close>; \<^verbatim>\<open>path.index\<close> raises when the
  neighbour is not on it.
\<close>

function dfs :: "dep_graph \<Rightarrow> string \<Rightarrow> string list \<Rightarrow> dfs_state \<Rightarrow> py_exception + dfs_state"
and dfs_neighbors ::
  "dep_graph \<Rightarrow> string list \<Rightarrow> string list \<Rightarrow> dfs_state \<Rightarrow> py_exception + dfs_state"
where
  "dfs g node path st =
     (case dfs_neighbors g (path @ [node]) (deps_of g node)
             (touch_key (st\<lparr>visited := insert node (visited st),
                             rec_stack := insert node (rec_stack st)\<rparr>) node) of
        Inl e \<Rightarrow> Inl e
      | Inr st' \<Rightarrow> Inr (st'\<lparr>rec_stack := rec_stack st' - {node}\<rparr>))"
| "dfs_neighbors g path [] st = Inr st"
| "dfs_neighbors g path (neighbor # rest) st =
     (if neighbor \<notin> visited st
      then (case dfs g neighbor path st of
              Inl e \<Rightarrow> Inl e
            | Inr st' \<Rightarrow> dfs_neighbors g path rest st')
      else if neighbor \<in> rec_stack st
      then (if neighbor \<in> set path
            then dfs_neighbors g path rest
                   (st\<lparr>cycles := cycles st @ [dropWhile (\<lambda>x. x \<noteq> neighbor) path @ [neighbor]]\<rparr>)
            else Inl (ValueError ''list.index(x): x not in list''))
      else dfs_neighbors g path rest st)"
  by pat_completeness auto

lemma touch_key_visited: "visited (touch_key st node) = visited st"
  by (simp add: touch_key_def)

lemma dfs_visited_grows:
  "dfs_dfs_neighbors_dom (Inl (g, node, path, st)) \<Longrightarrow> dfs g node path st = Inr st' \<Longrightarrow>
     visited st \<subseteq> visited st'"
  "dfs_dfs_neighbors_dom (Inr (g, path, ns, st)) \<Longrightarrow> dfs_neighbors g path ns st = Inr st' \<Longrightarrow>
     visited st \<subseteq> visited st'"
proof (induction g node path st and g path ns st arbitrary: st' and st'
    rule: dfs_dfs_neighbors.pinduct)
  case (1 g node path st)
  from "1.prems" "1.hyps" obtain st1 where
    run: "dfs_neighbors g (path @ [node]) (deps_of g node)
             (touch_key (st\<lparr>visited := insert node (visited st),
                             rec_stack := insert node (rec_stack st)\<rparr>) node) = Inr st1"
    and res: "st' = st1\<lparr>rec_stack := rec_stack st1 - {node}\<rparr>"
    by (auto simp: dfs.psimps split: sum.splits)
  from "1.IH" [OF run] have "insert node (visited st) \<subseteq> visited st1"
    by (simp add: touch_key_visited)
  with res show ?case by auto
next
  case (2 g path st)
  then show ?case by (simp add: dfs_neighbors.psimps)
next
  case (3 g path neighbor rest st)
  show ?case
  proof (cases "neighbor \<notin> visited st")
    case True
    with "3.prems" "3.hyps" obtain st1 where
      a: "dfs g neighbor path st = Inr st1" and b: "dfs_neighbors g path rest st1 = Inr st'"
      by (auto simp: dfs_neighbors.psimps split: sum.splits)
    from "3.IH"(1) [OF True a] "3.IH"(2) [OF True a b] show ?thesis by blast
  next
    case False
    show ?thesis
    proof (cases "neighbor \<in> rec_stack st")
      case True
      with False "3.prems" "3.hyps" have onpath: "neighbor \<in> set path"
        and b: "dfs_neighbors g path rest
                  (st\<lparr>cycles := cycles st @ [dropWhile (\<lambda>x. x \<noteq> neighbor) path @ [neighbor]]\<rparr>) = Inr st'"
        by (auto simp: dfs_neighbors.psimps split: if_splits)
      from "3.IH"(3) [OF _ True onpath b] False show ?thesis by simp
    next
      case notstack: False
      with False "3.prems" "3.hyps" have b: "dfs_neighbors g path rest st = Inr st'"
        by (auto simp: dfs_neighbors.psimps)
      from "3.IH"(4) [OF _ notstack b] False show ?thesis by simp
    qed
  qed
qed

termination dfs
proof (relation "inv_image (less_than <*lex*> less_than)
    (\<lambda>x. case x of
        Inl (g, node, path, st) \<Rightarrow>
          (card (graph_nodes g - insert node (visited st)), 2 * length (deps_of g node) + 2)
      | Inr (g, path, ns, st) \<Rightarrow> (card (graph_nodes g - visited st), 2 * length ns + 1))")
  show "wf (inv_image (less_than <*lex*> less_than)
    (\<lambda>x. case x of
        Inl (g, node, path, st) \<Rightarrow>
          (card (graph_nodes g - insert node (visited st)), 2 * length (deps_of g node) + 2)
      | Inr (g, path, ns, st) \<Rightarrow> (card (graph_nodes g - visited st), 2 * length ns + 1)))"
    by (intro wf_inv_image wf_lex_prod wf_less_than)
next
  fix g :: dep_graph and node path and st :: dfs_state
  show "(Inr (g, path @ [node], deps_of g node,
            touch_key (st\<lparr>visited := insert node (visited st),
                            rec_stack := insert node (rec_stack st)\<rparr>) node),
         Inl (g, node, path, st))
        \<in> inv_image (less_than <*lex*> less_than)
    (\<lambda>x. case x of
        Inl (g, node, path, st) \<Rightarrow>
          (card (graph_nodes g - insert node (visited st)), 2 * length (deps_of g node) + 2)
      | Inr (g, path, ns, st) \<Rightarrow> (card (graph_nodes g - visited st), 2 * length ns + 1))"
    by (simp add: touch_key_visited)
next
  fix g :: dep_graph and path neighbor rest and st :: dfs_state
  assume unvisited: "neighbor \<notin> visited st"
  have "card (graph_nodes g - insert neighbor (visited st)) < card (graph_nodes g - visited st) \<or>
        (card (graph_nodes g - insert neighbor (visited st)) = card (graph_nodes g - visited st) \<and>
         deps_of g neighbor = [])"
  proof (cases "neighbor \<in> graph_nodes g")
    case True
    with unvisited have "neighbor \<in> graph_nodes g - visited st" by simp
    then have "card (graph_nodes g - insert neighbor (visited st)) < card (graph_nodes g - visited st)"
      using finite_graph_nodes [of g] by (metis Diff_insert card_Diff1_less finite_Diff)
    then show ?thesis by simp
  next
    case False
    then have "deps_of g neighbor = []"
      using deps_in_graph_nodes [of g neighbor] by (cases "deps_of g neighbor") auto
    moreover from False have "graph_nodes g - insert neighbor (visited st) = graph_nodes g - visited st"
      by auto
    ultimately show ?thesis by simp
  qed
  then show "(Inl (g, neighbor, path, st), Inr (g, path, neighbor # rest, st))
        \<in> inv_image (less_than <*lex*> less_than)
    (\<lambda>x. case x of
        Inl (g, node, path, st) \<Rightarrow>
          (card (graph_nodes g - insert node (visited st)), 2 * length (deps_of g node) + 2)
      | Inr (g, path, ns, st) \<Rightarrow> (card (graph_nodes g - visited st), 2 * length ns + 1))"
    by auto
next
  fix g :: dep_graph and path neighbor rest and st st' :: dfs_state
  assume "neighbor \<notin> visited st" and "dfs g neighbor path st = Inr st'"
    and "dfs_dfs_neighbors_dom (Inl (g, neighbor, path, st))"
  then have "visited st \<subseteq> visited st'" using dfs_visited_grows(1) by blast
  then have "card (graph_nodes g - visited st') \<le> card (graph_nodes g - visited st)"
    using finite_graph_nodes [of g] by (intro card_mono) auto
  then show "(Inr (g, path, rest, st'), Inr (g, path, neighbor # rest, st))
        \<in> inv_image (less_than <*lex*> less_than)
    (\<lambda>x. case x of
        Inl (g, node, path, st) \<Rightarrow>
          (card (graph_nodes g - insert node (visited st)), 2 * length (deps_of g node) + 2)
      | Inr (g, path, ns, st) \<Rightarrow> (card (graph_nodes g - visited st), 2 * length ns + 1))"
    by auto
qed simp_all

declare dfs.simps [simp del] dfs_neighbors.simps [simp del]

text \<open>
  The loop of \<^verbatim>\<open>_detect_cycles\<close> over the keys of the graph. A dictionary that has
  grown since the loop began makes the next step of the iteration raise, also the
  step that would end the loop.
\<close>

fun detect_loop :: "dep_graph \<Rightarrow> nat \<Rightarrow> string list \<Rightarrow> dfs_state \<Rightarrow> py_exception + dfs_state" where
  "detect_loop g size0 [] st =
     (if length (graph_keys st) \<noteq> size0
      then Inl (RuntimeError ''dictionary changed size during iteration'')
      else Inr st)"
| "detect_loop g size0 (path # rest) st =
     (if length (graph_keys st) \<noteq> size0
      then Inl (RuntimeError ''dictionary changed size during iteration'')
      else if path \<notin> visited st
      then (case dfs g path [] st of
              Inl e \<Rightarrow> Inl e
            | Inr st' \<Rightarrow> detect_loop g size0 rest st')
      else detect_loop g size0 rest st)"

definition detect_cycles :: "dep_graph \<Rightarrow> py_exception + string list list" where
  "detect_cycles g =
     (case detect_loop g (length g) (map fst g)
             \<lparr>visited = {}, rec_stack = {}, cycles = [], graph_keys = map fst g\<rparr> of
        Inl e \<Rightarrow> Inl e
      | Inr st \<Rightarrow> Inr (cycles st))"

text \<open>
  The files that the search has finished with, and what the search maintains as
  long as it has reported no cycle: the finished files are closed under the edges
  and none of them lies on a cycle.
\<close>

definition finished :: "dfs_state \<Rightarrow> string set" where
  "finished st = visited st - rec_stack st"

definition search_invariant :: "dep_graph \<Rightarrow> dfs_state \<Rightarrow> bool" where
  "search_invariant g st \<longleftrightarrow>
     rec_stack st \<subseteq> visited st \<and>
     (cycles st = [] \<longrightarrow>
        (\<forall>u \<in> finished st. \<forall>v. (u, v) \<in> dep_edges g \<longrightarrow> v \<in> finished st) \<and>
        (\<forall>u \<in> finished st. (u, u) \<notin> (dep_edges g)\<^sup>+))"

section \<open>Theorems\<close>

subsection \<open>Line-range chunking partitions its input\<close>

lemma join_with_Cons:
  "join_with sep (x # xs) = (if xs = [] then x else x @ sep @ join_with sep xs)"
  by (cases xs) simp_all

lemma split_on_not_Nil: "split_on sep s \<noteq> []"
  by (induction s) (auto split: list.splits)

lemma join_split_on: "join_with [sep] (split_on sep s) = s"
proof (induction s)
  case Nil
  show ?case by simp
next
  case (Cons c cs)
  obtain l ls where sp: "split_on sep cs = l # ls"
    using split_on_not_Nil [of sep cs] by (cases "split_on sep cs") auto
  show ?case
    using Cons sp by (cases ls) (auto simp: join_with_Cons)
qed

lemma join_with_append:
  "xs \<noteq> [] \<Longrightarrow> ys \<noteq> [] \<Longrightarrow>
   join_with sep (xs @ ys) = join_with sep xs @ sep @ join_with sep ys"
  by (induction sep xs rule: join_with.induct) (auto simp: join_with_Cons)

lemma range_from_Nil_iff: "0 < step \<Longrightarrow> range_from i stop step = [] \<longleftrightarrow> stop \<le> i"
  by (subst range_from.simps) simp

lemma range_from_nth:
  "0 < step \<Longrightarrow> j < length (range_from i stop step) \<Longrightarrow>
   range_from i stop step ! j = i + j * step \<and> i + j * step < stop"
proof (induction i stop step arbitrary: j rule: range_from.induct)
  case (1 i stop step)
  show ?case
  proof (cases "stop \<le> i")
    case True
    with "1.prems" show ?thesis by (subst (asm) range_from.simps) simp
  next
    case False
    have unf: "range_from i stop step = i # range_from (i + step) stop step"
      using False "1.prems"(1) by (subst range_from.simps) simp
    show ?thesis
    proof (cases j)
      case 0
      with unf False show ?thesis by simp
    next
      case (Suc j')
      with "1.prems" unf have "j' < length (range_from (i + step) stop step)" by simp
      with "1.IH" [of j'] False "1.prems"(1)
      have "range_from (i + step) stop step ! j' = i + step + j' * step \<and> i + step + j' * step < stop"
        by simp
      with Suc unf show ?thesis by (simp add: algebra_simps)
    qed
  qed
qed

lemma range_from_length:
  "0 < step \<Longrightarrow> j * step + i < stop \<Longrightarrow> j < length (range_from i stop step)"
proof (induction i stop step arbitrary: j rule: range_from.induct)
  case (1 i stop step)
  from "1.prems" have ni: "\<not> stop \<le> i" by simp
  have unf: "range_from i stop step = i # range_from (i + step) stop step"
    using ni "1.prems"(1) by (subst range_from.simps) simp
  show ?case
  proof (cases j)
    case 0
    with unf show ?thesis by simp
  next
    case (Suc j')
    with "1.prems" have "j' * step + (i + step) < stop" by (simp add: algebra_simps)
    with "1.IH" [of j'] ni "1.prems"(1) have "j' < length (range_from (i + step) stop step)" by simp
    with Suc unf show ?thesis by simp
  qed
qed

lemma join_chunks:
  "0 < step \<Longrightarrow>
   join_with sep (map (\<lambda>i. join_with sep (take step (drop i ls))) (range_from i (length ls) step))
     = join_with sep (drop i ls)"
proof (induction i "length ls" step rule: range_from.induct)
  case (1 i step)
  show ?case
  proof (cases "length ls \<le> i")
    case True
    then show ?thesis by (subst range_from.simps) simp
  next
    case False
    have unf: "range_from i (length ls) step = i # range_from (i + step) (length ls) step"
      using False "1.prems" by (subst range_from.simps) simp
    have IH: "join_with sep (map (\<lambda>i. join_with sep (take step (drop i ls)))
                 (range_from (i + step) (length ls) step)) = join_with sep (drop (i + step) ls)"
      using "1.hyps" False "1.prems" by simp
    have dr: "drop (i + step) ls = drop step (drop i ls)" by (simp add: add.commute)
    show ?thesis
    proof (cases "length ls \<le> i + step")
      case True
      then have "range_from (i + step) (length ls) step = []"
        using "1.prems" by (simp add: range_from_Nil_iff)
      with unf True show ?thesis by simp
    next
      case False2: False
      then have ne: "range_from (i + step) (length ls) step \<noteq> []"
        using "1.prems" by (simp add: range_from_Nil_iff)
      have t: "take step (drop i ls) \<noteq> []" using False "1.prems" by simp
      have d: "drop step (drop i ls) \<noteq> []" using False2 by simp
      have "join_with sep (drop i ls) = join_with sep (take step (drop i ls) @ drop step (drop i ls))"
        by (simp only: append_take_drop_id)
      also have "\<dots> = join_with sep (take step (drop i ls)) @ sep @ join_with sep (drop step (drop i ls))"
        using t d by (rule join_with_append)
      finally show ?thesis using unf ne IH dr by (simp add: join_with_Cons)
    qed
  qed
qed


lemma py_slice_window:
  "0 < max_lines \<Longrightarrow> py_slice xs i (int i + max_lines) = take (nat max_lines) (drop i xs)"
  by (simp add: py_slice_def nat_add_distrib)

lemma py_slice_nat: "i < j \<Longrightarrow> py_slice xs i (int j) = take (j - i) (drop i xs)"
  by (simp add: py_slice_def)

lemma range_chunks_partition:
  fixes f :: "nat \<Rightarrow> chunk"
  assumes k: "0 < max_lines"
    and code: "\<And>i. i < length (split_lines s) \<Longrightarrow>
                 c_code (f i) = join_lines (take (nat max_lines) (drop i (split_lines s)))"
    and start: "\<And>i. i < length (split_lines s) \<Longrightarrow> c_start_line (f i) = off + i"
    and stop: "\<And>i. i < length (split_lines s) \<Longrightarrow>
                 c_end_line (f i) = off + min (i + nat max_lines) (length (split_lines s))"
  shows "exact_line_partition max_lines off s
           (map f (range_from 0 (length (split_lines s)) (nat max_lines)))"
proof -
  define ls where "ls = split_lines s"
  define n where "n = length ls"
  define st where "st = nat max_lines"
  define idxs where "idxs = range_from 0 n st"
  have st: "0 < st" using k by (simp add: st_def)
  have n: "0 < n" using split_on_not_Nil [of newline s] by (simp add: n_def ls_def split_lines_def)
  have nth: "idxs ! j = j * st \<and> j * st < n" if "j < length idxs" for j
    using range_from_nth [OF st, of j 0 n] that by (simp add: idxs_def)
  have len: "j < length idxs" if "j * st < n" for j
    using range_from_length [OF st, of j 0 n] that by (simp add: idxs_def)
  have ne: "idxs \<noteq> []" using len [of 0] n by auto
  have in_range: "idxs ! j < n" if "j < length idxs" for j using nth that by simp
  have fcode: "c_code (f (idxs ! j)) = join_lines (take st (drop (idxs ! j) ls))"
    if "j < length idxs" for j
    using code [of "idxs ! j"] in_range [OF that] by (simp add: n_def ls_def st_def)
  have fstart: "c_start_line (f (idxs ! j)) = off + j * st" if "j < length idxs" for j
    using start [of "idxs ! j"] in_range [OF that] nth [OF that] by (simp add: n_def ls_def)
  have fstop: "c_end_line (f (idxs ! j)) = off + min (j * st + st) n" if "j < length idxs" for j
    using stop [of "idxs ! j"] in_range [OF that] nth [OF that] by (simp add: n_def ls_def st_def)
  have "map c_code (map f idxs) = map (\<lambda>i. join_with [newline] (take st (drop i ls))) idxs"
  proof (rule nth_equalityI)
    show "length (map c_code (map f idxs)) = length (map (\<lambda>i. join_with [newline] (take st (drop i ls))) idxs)"
      by simp
  next
    fix j assume "j < length (map c_code (map f idxs))"
    then have "j < length idxs" by simp
    then show "map c_code (map f idxs) ! j = map (\<lambda>i. join_with [newline] (take st (drop i ls))) idxs ! j"
      using fcode [of j] by (simp add: join_lines_def)
  qed
  then have "join_lines (map c_code (map f idxs)) =
      join_with [newline] (map (\<lambda>i. join_with [newline] (take st (drop i ls))) idxs)"
    by (simp only: join_lines_def)
  also have "\<dots> = join_with [newline] (drop 0 ls)"
    unfolding idxs_def n_def by (rule join_chunks [OF st])
  finally have joined: "join_lines (map c_code (map f idxs)) = s"
    using join_split_on [of newline s] by (simp add: ls_def split_lines_def)
  have first: "c_start_line (hd (map f idxs)) = off"
    using ne fstart [of 0] by (simp add: hd_map hd_conv_nth)
  have last_idx: "n \<le> length idxs * st"
  proof (rule ccontr)
    assume "\<not> n \<le> length idxs * st"
    then have "length idxs < length idxs" using len [of "length idxs"] by simp
    then show False by simp
  qed
  have "c_end_line (last (map f idxs)) = off + min ((length idxs - 1) * st + st) n"
    using ne fstop [of "length idxs - 1"] by (simp add: last_map last_conv_nth)
  also have "(length idxs - 1) * st + st = length idxs * st"
    using ne by (cases "length idxs") simp_all
  finally have final: "c_end_line (last (map f idxs)) = off + n"
    using last_idx by simp
  have contiguous: "c_start_line (map f idxs ! Suc j) = c_end_line (map f idxs ! j)"
    if "Suc j < length (map f idxs)" for j
  proof -
    from that have a: "Suc j < length idxs" and b: "j < length idxs" by simp_all
    from nth [OF a] have "j * st + st < n" by (simp add: add.commute)
    then show ?thesis using fstart [OF a] fstop [OF b] a b by simp
  qed
  have each: "off \<le> c_start_line (map f idxs ! j) \<and>
        c_start_line (map f idxs ! j) < c_end_line (map f idxs ! j) \<and>
        int (c_end_line (map f idxs ! j)) - int (c_start_line (map f idxs ! j)) \<le> max_lines \<and>
        c_code (map f idxs ! j) =
          join_lines (py_slice ls (c_start_line (map f idxs ! j) - off)
                        (int (c_end_line (map f idxs ! j) - off)))"
    if "j < length (map f idxs)" for j
  proof -
    from that have b: "j < length idxs" by simp
    have lt: "j * st < n" using nth [OF b] by simp
    have s: "c_start_line (map f idxs ! j) = off + j * st" using fstart [OF b] b by simp
    have e: "c_end_line (map f idxs ! j) = off + min (j * st + st) n" using fstop [OF b] b by simp
    have c: "c_code (map f idxs ! j) = join_lines (take st (drop (j * st) ls))"
      using fcode [OF b] nth [OF b] b by simp
    have "take (min (j * st + st) n - j * st) (drop (j * st) ls) = take st (drop (j * st) ls)"
      by (simp add: n_def min_def)
    moreover have below: "j * st < min (j * st + st) n" using lt st by simp
    ultimately have sl: "py_slice ls (j * st) (int (min (j * st + st) n)) = take st (drop (j * st) ls)"
      by (simp only: py_slice_nat)
    have "min (j * st + st) n - j * st \<le> st" by simp
    then have "int (min (j * st + st) n - j * st) \<le> int st" by (simp only: of_nat_le_iff)
    then have bound: "int (min (j * st + st) n) - int (j * st) \<le> max_lines"
      using k below by (simp add: st_def of_nat_diff)
    show ?thesis using s e c sl bound lt st by simp
  qed
  show ?thesis
    unfolding exact_line_partition_def
    using ne joined first final contiguous each
    by (simp add: idxs_def n_def ls_def st_def)
qed

text \<open>
  C10. Whenever \<open>max_lines\<close> is positive, the fallback line-range chunking of any
  text, and the splitting of an oversized declaration that starts at line
  \<open>start_line\<close>, return chunks that partition the text exactly: in the original
  order, each a contiguous range of at most \<open>max_lines\<close> lines, and joining the
  code fields with a single newline gives the text back, character for character.
\<close>

theorem line_chunking_partitions_input:
  assumes "0 < max_lines"
  shows "(\<exists>cs. chunk_by_lines max_lines code = Inr cs \<and>
               exact_line_partition max_lines 0 code cs) \<and>
         (\<exists>cs. split_large_chunk max_lines code start_line imports = Inr cs \<and>
               exact_line_partition max_lines start_line code cs)"
proof
  have "exact_line_partition max_lines 0 code
          (map (\<lambda>i. let chunk_lines = py_slice (split_lines code) i (int i + max_lines);
                        chunk_code = join_lines chunk_lines
                    in \<lparr> c_type = ''partial'',
                         c_name = ''lines_'' @ str_of_nat i @ ''_'' @ str_of_nat (i + length chunk_lines),
                         c_code = chunk_code,
                         c_start_line = i,
                         c_end_line = i + length chunk_lines,
                         c_imports = '''' \<rparr>)
             (range_from 0 (length (split_lines code)) (nat max_lines)))"
    using assms
    by (intro range_chunks_partition) (auto simp: py_slice_window Let_def min_def)
  then show "\<exists>cs. chunk_by_lines max_lines code = Inr cs \<and> exact_line_partition max_lines 0 code cs"
    using assms by (simp add: chunk_by_lines_def py_range_def Let_def)
next
  have "exact_line_partition max_lines start_line code
          (map (\<lambda>i. let sub_code = join_lines (py_slice (split_lines code) i (int i + max_lines))
                    in \<lparr> c_type = ''partial'',
                         c_name = ''partial_'' @ str_of_nat (start_line + i),
                         c_code = sub_code,
                         c_start_line = start_line + i,
                         c_end_line = start_line + nat (min (int i + max_lines) (int (length (split_lines code)))),
                         c_imports = imports \<rparr>)
             (range_from 0 (length (split_lines code)) (nat max_lines)))"
    using assms
    by (intro range_chunks_partition) (auto simp: py_slice_window Let_def min_def nat_add_distrib)
  then show "\<exists>cs. split_large_chunk max_lines code start_line imports = Inr cs \<and>
               exact_line_partition max_lines start_line code cs"
    using assms by (simp add: split_large_chunk_def py_range_def Let_def)
qed

theorem line_chunking_partitions_input_witness:
  "0 < (2::int) \<and>
   (\<exists>cs. chunk_by_lines 2 [CHR ''a'', newline, CHR ''b'', newline, newline, CHR ''c''] = Inr cs \<and>
      exact_line_partition 2 0 [CHR ''a'', newline, CHR ''b'', newline, newline, CHR ''c''] cs) \<and>
   (\<exists>cs. split_large_chunk 2 [CHR ''a'', newline, CHR ''b'', newline, newline, CHR ''c''] 7 ''import os'' = Inr cs \<and>
      exact_line_partition 2 7 [CHR ''a'', newline, CHR ''b'', newline, newline, CHR ''c''] cs)"
  using line_chunking_partitions_input
    [of 2 "[CHR ''a'', newline, CHR ''b'', newline, newline, CHR ''c'']" 7 "''import os''"]
  by simp

text \<open>The same input evaluated: four lines in two chunks of two lines each.\<close>

lemma chunk_by_lines_example:
  "chunk_by_lines 2 [CHR ''a'', newline, CHR ''b'', newline, newline, CHR ''c''] =
     Inr [\<lparr> c_type = ''partial'', c_name = ''lines_0_2'', c_code = [CHR ''a'', newline, CHR ''b''],
             c_start_line = 0, c_end_line = 2, c_imports = '''' \<rparr>,
          \<lparr> c_type = ''partial'', c_name = ''lines_2_4'', c_code = [newline, CHR ''c''],
             c_start_line = 2, c_end_line = 4, c_imports = '''' \<rparr>]"
  by code_simp

text \<open>A step of zero makes \<^verbatim>\<open>range\<close> raise, and a negative one yields no chunk.\<close>

lemma chunk_by_lines_nonpositive:
  "chunk_by_lines 0 code = Inl (ValueError ''range() arg 3 must not be zero'')"
  "max_lines < 0 \<Longrightarrow> chunk_by_lines max_lines code = Inr []"
  by (simp_all add: chunk_by_lines_def py_range_def)

subsection \<open>The rate limiter\<close>

lemma popleft_older_sorted:
  "sorted cs \<Longrightarrow> popleft_older cutoff cs = filter (\<lambda>t. cutoff \<le> t) cs"
proof (induction cs)
  case Nil
  show ?case by simp
next
  case (Cons c cs)
  show ?case
  proof (cases "c < cutoff")
    case True
    with Cons show ?thesis by simp
  next
    case False
    with Cons.prems have "\<forall>t \<in> set (c # cs). cutoff \<le> t" by auto
    then have "filter (\<lambda>t. cutoff \<le> t) (c # cs) = c # cs"
      by (simp only: filter_id_conv)
    with False show ?thesis by simp
  qed
qed

lemma popleft_older_head: "popleft_older cutoff cs = c # rest \<Longrightarrow> cutoff \<le> c"
  by (induction cs) (auto split: if_splits)

text \<open>
  C2. For every limiter whose recorded timestamps are in time order and every clock
  reading \<open>now\<close>: \<^const>\<open>acquire\<close> keeps exactly the timestamps that are not
  older than \<open>now - W\<close>; if fewer than \<open>N\<close> of them remain it records \<open>now\<close>
  and returns 0; otherwise it returns \<open>(oldest + W) - now\<close>, which is not negative,
  and records nothing. With \<open>N = 2\<close> and \<open>W = 10\<close>, three calls at time 0 return
  0, 0 and 10.
\<close>

theorem acquire_prunes_then_admits_or_waits:
  assumes "sorted (calls rl)"
  shows "(let remaining = filter (\<lambda>t. now - time_window rl \<le> t) (calls rl) in
          if int (length remaining) < max_calls rl
          then acquire rl now = (Inr 0, rl\<lparr>calls := remaining @ [now]\<rparr>)
          else (\<forall>oldest rest. remaining = oldest # rest \<longrightarrow>
                  acquire rl now = (Inr ((oldest + time_window rl) - now), rl\<lparr>calls := remaining\<rparr>) \<and>
                  0 \<le> (oldest + time_window rl) - now)) \<and>
         acquire \<lparr>max_calls = 2, time_window = 10, calls = []\<rparr> 0 =
           (Inr 0, \<lparr>max_calls = 2, time_window = 10, calls = [0]\<rparr>) \<and>
         acquire \<lparr>max_calls = 2, time_window = 10, calls = [0]\<rparr> 0 =
           (Inr 0, \<lparr>max_calls = 2, time_window = 10, calls = [0, 0]\<rparr>) \<and>
         acquire \<lparr>max_calls = 2, time_window = 10, calls = [0, 0]\<rparr> 0 =
           (Inr 10, \<lparr>max_calls = 2, time_window = 10, calls = [0, 0]\<rparr>)"
proof -
  have pr: "popleft_older (now - time_window rl) (calls rl) =
              filter (\<lambda>t. now - time_window rl \<le> t) (calls rl)"
    using assms by (rule popleft_older_sorted)
  have general: "(let remaining = filter (\<lambda>t. now - time_window rl \<le> t) (calls rl) in
          if int (length remaining) < max_calls rl
          then acquire rl now = (Inr 0, rl\<lparr>calls := remaining @ [now]\<rparr>)
          else (\<forall>oldest rest. remaining = oldest # rest \<longrightarrow>
                  acquire rl now = (Inr ((oldest + time_window rl) - now), rl\<lparr>calls := remaining\<rparr>) \<and>
                  0 \<le> (oldest + time_window rl) - now))"
  proof (cases "int (length (filter (\<lambda>t. now - time_window rl \<le> t) (calls rl))) < max_calls rl")
    case True
    then show ?thesis by (simp add: acquire_def pr Let_def)
  next
    case False
    have "acquire rl now = (Inr ((oldest + time_window rl) - now),
              rl\<lparr>calls := filter (\<lambda>t. now - time_window rl \<le> t) (calls rl)\<rparr>) \<and>
          0 \<le> (oldest + time_window rl) - now"
      if eq: "filter (\<lambda>t. now - time_window rl \<le> t) (calls rl) = oldest # rest"
      for oldest rest
    proof -
      have "popleft_older (now - time_window rl) (calls rl) = oldest # rest"
        using pr eq by simp
      then have "now - time_window rl \<le> oldest" by (rule popleft_older_head)
      then have nonneg: "0 \<le> (oldest + time_window rl) - now" by simp
      then show ?thesis
        using False eq by (simp add: acquire_def pr Let_def max_def)
    qed
    with False show ?thesis by (simp add: Let_def)
  qed
  have scenario:
    "acquire \<lparr>max_calls = 2, time_window = 10, calls = []\<rparr> 0 =
       (Inr 0, \<lparr>max_calls = 2, time_window = 10, calls = [0]\<rparr>)"
    "acquire \<lparr>max_calls = 2, time_window = 10, calls = [0]\<rparr> 0 =
       (Inr 0, \<lparr>max_calls = 2, time_window = 10, calls = [0, 0]\<rparr>)"
    "acquire \<lparr>max_calls = 2, time_window = 10, calls = [0, 0]\<rparr> 0 =
       (Inr 10, \<lparr>max_calls = 2, time_window = 10, calls = [0, 0]\<rparr>)"
    by (simp_all add: acquire_def)
  from general scenario show ?thesis by blast
qed


theorem acquire_prunes_then_admits_or_waits_witness:
  "sorted (calls \<lparr>max_calls = 2, time_window = 10, calls = [1, 5, 12]\<rparr>) \<and>
   acquire \<lparr>max_calls = 2, time_window = 10, calls = [1, 5, 12]\<rparr> 14 =
     (Inr 1, \<lparr>max_calls = 2, time_window = 10, calls = [5, 12]\<rparr>) \<and>
   sorted (calls \<lparr>max_calls = 2, time_window = 10, calls = [1, 5]\<rparr>) \<and>
   acquire \<lparr>max_calls = 2, time_window = 10, calls = [1, 5]\<rparr> 14 =
     (Inr 0, \<lparr>max_calls = 2, time_window = 10, calls = [5, 14]\<rparr>)"
  using acquire_prunes_then_admits_or_waits
          [of "\<lparr>max_calls = 2, time_window = 10, calls = [1, 5, 12]\<rparr>" 14]
        acquire_prunes_then_admits_or_waits
          [of "\<lparr>max_calls = 2, time_window = 10, calls = [1, 5]\<rparr>" 14]
  by (simp add: Let_def)

text \<open>With a capacity of at least one, \<^const>\<open>acquire\<close> always returns a wait time.\<close>

lemma acquire_returns:
  "0 < max_calls rl \<Longrightarrow> \<exists>w rl'. acquire rl now = (Inr w, rl')"
  by (cases "popleft_older (now - time_window rl) (calls rl)")
     (auto simp: acquire_def Let_def)

text \<open>
  Under a clock that does not run backwards the deque stays in time order, and
  it never grows beyond the capacity.
\<close>

lemma popleft_older_suffix: "\<exists>ds. cs = ds @ popleft_older cutoff cs"
proof (induction cs)
  case Nil
  show ?case by simp
next
  case (Cons c cs)
  then obtain ds where ds: "cs = ds @ popleft_older cutoff cs" by blast
  show ?case
  proof (cases "c < cutoff")
    case True
    from ds have "c # cs = (c # ds) @ popleft_older cutoff cs" by simp
    with True show ?thesis by (metis popleft_older.simps(2))
  next
    case False
    then have "c # cs = [] @ popleft_older cutoff (c # cs)" by simp
    then show ?thesis by blast
  qed
qed

lemma acquire_keeps_time_order:
  assumes "sorted (calls rl)" and "\<forall>t \<in> set (calls rl). t \<le> now"
    and "acquire rl now = (res, rl')"
  shows "sorted (calls rl') \<and> (\<forall>t \<in> set (calls rl'). t \<le> now)"
proof -
  obtain ds where ds: "calls rl = ds @ popleft_older (now - time_window rl) (calls rl)"
    using popleft_older_suffix by blast
  have s: "sorted (popleft_older (now - time_window rl) (calls rl))"
    using assms(1) ds by (metis sorted_append)
  have b: "\<forall>t \<in> set (popleft_older (now - time_window rl) (calls rl)). t \<le> now"
    using assms(2) ds by (metis Un_iff set_append)
  show ?thesis
    using assms(3) s b
    by (auto simp: acquire_def Let_def sorted_append split: if_splits list.splits)
qed

lemma acquire_bounded:
  assumes "int (length (calls rl)) \<le> max_calls rl" and "acquire rl now = (res, rl')"
  shows "int (length (calls rl')) \<le> max_calls rl'"
proof -
  obtain ds where ds: "calls rl = ds @ popleft_older (now - time_window rl) (calls rl)"
    using popleft_older_suffix by blast
  then have "length (popleft_older (now - time_window rl) (calls rl)) \<le> length (calls rl)"
    by (metis le_add2 length_append)
  then show ?thesis
    using assms by (auto simp: acquire_def Let_def split: if_splits list.splits)
qed

text \<open>
  C3 (the code departs from the claim). \<^const>\<open>wait_if_needed\<close> sleeps for the wait
  time but records nothing afterwards. With capacity 1 and a window of 10 seconds,
  three callers that arrive at time 0 go on at times 0, 10 and 10, and callers that
  arrive at times 0, 1 and 10.5 go on at times 0, 10 and 10.5: in both runs two calls
  are admitted within the ten seconds that start at time 10.
\<close>

theorem wait_if_needed_exceeds_capacity:
  "admit_all \<lparr>max_calls = 1, time_window = 10, calls = []\<rparr> [0, 0, 0] =
     (Inr [0, 10, 10], \<lparr>max_calls = 1, time_window = 10, calls = [0]\<rparr>) \<and>
   admitted_in_window 10 [0, 10, 10] 10 = 2 \<and>
   admit_all \<lparr>max_calls = 1, time_window = 10, calls = []\<rparr> [0, 1, 10.5] =
     (Inr [0, 10, 10.5], \<lparr>max_calls = 1, time_window = 10, calls = [10.5]\<rparr>) \<and>
   admitted_in_window 10 [0, 10, 10.5] 10 = 2"
  by (simp add: wait_if_needed_def acquire_def admitted_in_window_def)

subsection \<open>The parallel batch keeps one entry per item\<close>

lemma acquire_max_calls: "max_calls (snd (acquire rl now)) = max_calls rl"
  by (auto simp: acquire_def Let_def split: list.splits)

lemma acquire_error:
  "fst (acquire rl now) = Inl e \<Longrightarrow> e = IndexError ''deque index out of range'' \<and> \<not> 0 < max_calls rl"
  by (auto simp: acquire_def Let_def split: if_splits list.splits)

lemma wait_if_needed_max_calls: "max_calls (snd (wait_if_needed rl now)) = max_calls rl"
  using acquire_max_calls [of rl now]
  by (auto simp: wait_if_needed_def split: prod.splits sum.splits)

lemma wait_if_needed_error:
  "fst (wait_if_needed rl now) = Inl e \<Longrightarrow> e = IndexError ''deque index out of range'' \<and> \<not> 0 < max_calls rl"
  using acquire_error [of rl now e]
  by (auto simp: wait_if_needed_def split: prod.splits sum.splits)

lemma process_file_async_max_calls:
  "max_calls (rate_limiter (snd (process_file_async pp path outcome now))) = max_calls (rate_limiter pp)"
  using wait_if_needed_max_calls [of "rate_limiter pp" now]
  by (auto simp: process_file_async_def Let_def split: prod.splits sum.splits)

lemma process_file_async_result:
  "(fst (process_file_async pp path outcome now) = Inr (batch_entry path outcome None)) \<or>
   (fst (process_file_async pp path outcome now) = Inl (IndexError ''deque index out of range'') \<and>
    \<not> 0 < max_calls (rate_limiter pp))"
proof (cases "fst (wait_if_needed (rate_limiter pp) now)")
  case (Inl e)
  from wait_if_needed_error [OF Inl] Inl show ?thesis
    by (auto simp: process_file_async_def split: prod.splits)
next
  case (Inr t)
  then show ?thesis
    by (auto simp: process_file_async_def batch_entry_def Let_def split: prod.splits sum.splits)
qed

lemma gather_tasks_length:
  "length (fst (gather_tasks pp i files outcomes nows)) = length files"
proof (induction files arbitrary: pp i)
  case Nil
  show ?case by simp
next
  case (Cons path paths)
  obtain r pp' where step: "process_file_async pp path (outcomes i) (nows i) = (r, pp')"
    by (cases "process_file_async pp path (outcomes i) (nows i)")
  obtain rs pp'' where rest: "gather_tasks pp' (Suc i) paths outcomes nows = (rs, pp'')"
    by (cases "gather_tasks pp' (Suc i) paths outcomes nows")
  from Cons [of pp' "Suc i"] rest have "length rs = length paths" by simp
  with step rest show ?case by simp
qed

lemma gather_tasks_nth:
  "j < length files \<Longrightarrow>
   (fst (gather_tasks pp i files outcomes nows) ! j = Inr (batch_entry (files ! j) (outcomes (i + j)) None)) \<or>
   (fst (gather_tasks pp i files outcomes nows) ! j = Inl (IndexError ''deque index out of range'') \<and>
    \<not> 0 < max_calls (rate_limiter pp))"
proof (induction files arbitrary: pp i j)
  case Nil
  then show ?case by simp
next
  case (Cons path paths)
  obtain r pp' where step: "process_file_async pp path (outcomes i) (nows i) = (r, pp')"
    by (cases "process_file_async pp path (outcomes i) (nows i)")
  obtain rs pp'' where rest: "gather_tasks pp' (Suc i) paths outcomes nows = (rs, pp'')"
    by (cases "gather_tasks pp' (Suc i) paths outcomes nows")
  have mc: "max_calls (rate_limiter pp') = max_calls (rate_limiter pp)"
    using process_file_async_max_calls [of pp path "outcomes i" "nows i"] step by simp
  show ?case
  proof (cases j)
    case 0
    with step rest process_file_async_result [of pp path "outcomes i" "nows i"]
    show ?thesis by auto
  next
    case (Suc j')
    with Cons.prems have "j' < length paths" by simp
    from Cons.IH [OF this, of pp' "Suc i"] rest mc Suc step
    show ?thesis by auto
  qed
qed

lemma map_results_dom:
  "dom (map_results m prs) = dom m \<union> fst ` set prs"
proof (induction prs arbitrary: m)
  case Nil
  show ?case by simp
next
  case (Cons pr prs)
  obtain path result where pr: "pr = (path, result)" by (cases pr)
  have "dom (map_results (m(path \<mapsto> stored_result path result)) prs) =
          dom (m(path \<mapsto> stored_result path result)) \<union> fst ` set prs"
    by (rule Cons)
  then show ?case using pr by auto
qed

lemma map_results_other:
  "path \<notin> fst ` set prs \<Longrightarrow> map_results m prs path = m path"
proof (induction prs arbitrary: m)
  case Nil
  show ?case by simp
next
  case (Cons pr prs)
  obtain p result where pr: "pr = (p, result)" by (cases pr)
  from Cons.prems pr have ne: "p \<noteq> path" and notin: "path \<notin> fst ` set prs" by auto
  have "map_results (m(p \<mapsto> stored_result p result)) prs path = (m(p \<mapsto> stored_result p result)) path"
    using notin by (rule Cons.IH)
  with ne pr show ?case by simp
qed

lemma map_results_nth:
  "distinct (map fst prs) \<Longrightarrow> j < length prs \<Longrightarrow>
   map_results m prs (fst (prs ! j)) = Some (stored_result (fst (prs ! j)) (snd (prs ! j)))"
proof (induction prs arbitrary: m j)
  case Nil
  then show ?case by simp
next
  case (Cons pr prs)
  obtain path result where pr: "pr = (path, result)" by (cases pr)
  show ?case
  proof (cases j)
    case 0
    have "path \<notin> fst ` set prs" using Cons.prems(1) pr by auto
    then have "map_results (m(path \<mapsto> stored_result path result)) prs path =
                 (m(path \<mapsto> stored_result path result)) path"
      by (rule map_results_other)
    then show ?thesis using 0 pr by simp
  next
    case (Suc j')
    with Cons.prems have "distinct (map fst prs)" "j' < length prs" by simp_all
    then have "map_results (m(path \<mapsto> stored_result path result)) prs (fst (prs ! j')) =
                 Some (stored_result (fst (prs ! j')) (snd (prs ! j')))"
      by (rule Cons.IH)
    then show ?thesis using Suc pr by simp
  qed
qed

text \<open>A pool size below one: the semaphore raises, or no task is ever let in.\<close>

lemma process_batch_without_workers:
  "max_workers pp < 0 \<Longrightarrow>
     fst (process_batch pp files outcomes nows) =
       Some (Inl (ValueError ''Semaphore initial value must be >= 0''))"
  "max_workers pp = 0 \<Longrightarrow> files \<noteq> [] \<Longrightarrow> fst (process_batch pp files outcomes nows) = None"
  "max_workers pp = 0 \<Longrightarrow> fst (process_batch pp [] outcomes nows) = Some (Inr Map.empty)"
  by (simp_all add: process_batch_def Let_def)

text \<open>
  C9. A batch run with a pool of at least one worker returns, and it returns a
  result dictionary that has exactly the files of the batch as its keys. For a
  batch of distinct files, the entry of every file is determined by its own task
  alone: the result that \<^verbatim>\<open>process_func\<close> returned for it, or, when that call
  raised, a failed result with zero attempts whose error is the exception's
  message; an exception of the rate limiter, which only a capacity below one can
  raise, is stored as a failed result all the same.
\<close>

theorem process_batch_one_entry_per_item:
  assumes "0 < max_workers pp"
  shows "\<exists>result_dict pp'.
     process_batch pp files outcomes nows = (Some (Inr result_dict), pp') \<and>
     dom result_dict = set files \<and>
     (distinct files \<longrightarrow>
        (\<forall>i. i < length files \<longrightarrow>
           (result_dict (files ! i) = Some (batch_entry (files ! i) (outcomes i) None)) \<or>
           (result_dict (files ! i) =
              Some (batch_entry (files ! i) (outcomes i) (Some (IndexError ''deque index out of range''))) \<and>
            \<not> 0 < max_calls (rate_limiter pp))))"
proof -
  define pp0 where
    "pp0 = pp\<lparr>progress := \<lparr>completed = 0, total = int (length files), failed = 0\<rparr>\<rparr>"
  define results where "results = fst (gather_tasks pp0 0 files outcomes nows)"
  define result_dict where "result_dict = map_results Map.empty (zip files results)"
  define pp' where "pp' = snd (gather_tasks pp0 0 files outcomes nows)"
  have pb: "process_batch pp files outcomes nows = (Some (Inr result_dict), pp')"
    using assms
    by (simp add: process_batch_def pp0_def results_def result_dict_def pp'_def Let_def
          split: prod.splits)
  have len: "length results = length files"
    by (simp add: results_def gather_tasks_length)
  have "fst ` set (zip files results) = set files"
    using len by (metis map_fst_zip set_map)
  then have keys: "dom result_dict = set files"
    by (simp add: result_dict_def map_results_dom)
  have entries:
    "(result_dict (files ! i) = Some (batch_entry (files ! i) (outcomes i) None)) \<or>
     (result_dict (files ! i) =
        Some (batch_entry (files ! i) (outcomes i) (Some (IndexError ''deque index out of range''))) \<and>
      \<not> 0 < max_calls (rate_limiter pp))"
    if d: "distinct files" and i: "i < length files" for i
  proof -
    have dz: "distinct (map fst (zip files results))" using d len by simp
    have iz: "i < length (zip files results)" using i len by simp
    have "map_results Map.empty (zip files results) (fst (zip files results ! i)) =
            Some (stored_result (fst (zip files results ! i)) (snd (zip files results ! i)))"
      using dz iz by (rule map_results_nth)
    then have stored: "result_dict (files ! i) = Some (stored_result (files ! i) (results ! i))"
      using i len by (simp add: result_dict_def)
    have "max_calls (rate_limiter pp0) = max_calls (rate_limiter pp)" by (simp add: pp0_def)
    with gather_tasks_nth [OF i, of pp0 0 outcomes nows]
    have "results ! i = Inr (batch_entry (files ! i) (outcomes i) None) \<or>
          (results ! i = Inl (IndexError ''deque index out of range'') \<and>
           \<not> 0 < max_calls (rate_limiter pp))"
      by (simp add: results_def)
    then show ?thesis
      using stored by (auto simp: stored_result_def batch_entry_def)
  qed
  from pb keys entries show ?thesis by blast
qed

theorem process_batch_one_entry_per_item_witness:
  "(0::int) < 5 \<and> distinct [''a.py'', ''b.py''] \<and>
   (\<exists>result_dict pp'.
      process_batch
          \<lparr>max_workers = 5, rate_limiter = \<lparr>max_calls = 10, time_window = 60, calls = []\<rparr>,
           progress = \<lparr>completed = 0, total = 0, failed = 0\<rparr>\<rparr>
          [''a.py'', ''b.py'']
          (\<lambda>i. if i = 0 then Inl (Exception ''boom'')
               else Inr \<lparr>file_path = ''b.py'', success = True, attempts = 2, api_changes = [],
                         error = None, diff = None\<rparr>)
          (\<lambda>i. 0) = (Some (Inr result_dict), pp') \<and>
      dom result_dict = {''a.py'', ''b.py''} \<and>
      result_dict ''a.py'' =
        Some \<lparr>file_path = ''a.py'', success = False, attempts = 0, api_changes = [],
               error = Some ''Processing error: boom'', diff = None\<rparr> \<and>
      result_dict ''b.py'' =
        Some \<lparr>file_path = ''b.py'', success = True, attempts = 2, api_changes = [],
               error = None, diff = None\<rparr>)"
proof -
  define pp where "pp = \<lparr>max_workers = 5,
      rate_limiter = \<lparr>max_calls = 10, time_window = 60, calls = []\<rparr>,
      progress = \<lparr>completed = 0, total = 0, failed = 0\<rparr>\<rparr>"
  define outcomes :: "nat \<Rightarrow> py_exception + file_upgrade_result" where
    "outcomes = (\<lambda>i. if i = 0 then Inl (Exception ''boom'')
               else Inr \<lparr>file_path = ''b.py'', success = True, attempts = 2, api_changes = [],
                         error = None, diff = None\<rparr>)"
  have pool: "0 < max_workers pp" by (simp add: pp_def)
  from process_batch_one_entry_per_item [OF pool, of "[''a.py'', ''b.py'']" outcomes "\<lambda>i. 0"]
  obtain result_dict pp' where
    pb: "process_batch pp [''a.py'', ''b.py''] outcomes (\<lambda>i. 0) = (Some (Inr result_dict), pp')"
    and keys: "dom result_dict = set [''a.py'', ''b.py'']"
    and entries: "\<And>i. i < length [''a.py'', ''b.py''] \<Longrightarrow>
           (result_dict ([''a.py'', ''b.py''] ! i) =
              Some (batch_entry ([''a.py'', ''b.py''] ! i) (outcomes i) None)) \<or>
           (result_dict ([''a.py'', ''b.py''] ! i) =
              Some (batch_entry ([''a.py'', ''b.py''] ! i) (outcomes i)
                      (Some (IndexError ''deque index out of range''))) \<and>
            \<not> 0 < max_calls (rate_limiter pp))"
    by auto
  have a: "result_dict ''a.py'' =
     Some \<lparr>file_path = ''a.py'', success = False, attempts = 0, api_changes = [],
            error = Some ''Processing error: boom'', diff = None\<rparr>"
    using entries [of 0] by (simp add: batch_entry_def outcomes_def pp_def)
  have b: "result_dict ''b.py'' =
     Some \<lparr>file_path = ''b.py'', success = True, attempts = 2, api_changes = [],
            error = None, diff = None\<rparr>"
    using entries [of 1] by (simp add: batch_entry_def outcomes_def pp_def)
  from keys have keys': "dom result_dict = {''a.py'', ''b.py''}" by simp
  from pb keys' a b show ?thesis
    unfolding pp_def outcomes_def by auto
qed


subsection \<open>The cache round trip\<close>

lemma cache_dir_shape: "\<exists>p. cache_dir cm = p @ ''.ml_upgrader_cache''"
  by (auto simp: cache_dir_def path_join_def)

lemma code_cache_path_not_cache_file:
  assumes "rel = [] \<or> hd rel \<noteq> CHR ''/''"
  shows "path_join (path_join (cache_dir cm) ''upgraded'') rel \<noteq> cache_file cm"
proof -
  obtain p where p: "cache_dir cm = p @ ''.ml_upgrader_cache''"
    using cache_dir_shape by blast
  have a: "path_join (cache_dir cm) ''upgraded'' = p @ ''.ml_upgrader_cache/upgraded''"
    by (simp add: p path_join_def)
  have b: "cache_file cm = p @ ''.ml_upgrader_cache/upgrade_cache.json''"
    by (simp add: cache_file_def p path_join_def)
  have c: "path_join (p @ ''.ml_upgrader_cache/upgraded'') rel = p @ ''.ml_upgrader_cache/upgraded/'' @ rel"
    using assms by (auto simp: path_join_def)
  show ?thesis unfolding a b c by simp
qed

lemma code_cache_path_not_empty:
  "rel = [] \<or> hd rel \<noteq> CHR ''/'' \<Longrightarrow> path_join (path_join (cache_dir cm) ''upgraded'') rel \<noteq> []"
  by (auto simp: path_join_def)

text \<open>When \<^const>\<open>is_file_cached\<close> answers yes, and only then.\<close>

lemma is_file_cached_iff:
  "is_file_cached lib cm d path \<longleftrightarrow>
     (\<exists>entry. cache_data cm (relpath lib path (repo_path cm)) = Some entry \<and>
        get_file_hash lib d path = (case ce_input_hash entry of None \<Rightarrow> '''' | Some h \<Rightarrow> h) \<and>
        ce_success entry = Some True)"
  by (auto simp: is_file_cached_def Let_def split: option.splits)

text \<open>A text without carriage returns is read back as it was written.\<close>

lemma universal_newlines_plain:
  "carriage_return \<notin> set s \<Longrightarrow> universal_newlines s = s"
  by (induction s rule: universal_newlines.induct) auto

text \<open>What a call of \<^const>\<open>cache_result\<close> that returns has done for a non-empty output.\<close>

lemma cache_result_stored:
  assumes succ: "success result"
    and nonempty: "output \<noteq> []"
    and rel: "relpath lib path (repo_path cm) = [] \<or> hd (relpath lib path (repo_path cm)) \<noteq> CHR ''/''"
    and recorded: "cache_result lib cm d path result (Some output) stamp = (None, cm1, d1)"
  shows "repo_path cm1 = repo_path cm"
    and "cache_data cm1 (relpath lib path (repo_path cm)) =
           Some \<lparr> ce_success = Some True,
                  ce_attempts = attempts result,
                  ce_timestamp = stamp,
                  ce_input_hash = Some (get_file_hash lib d path),
                  ce_error = error result,
                  ce_api_changes = api_changes result,
                  ce_cached_output =
                    Some (path_join (path_join (cache_dir cm) ''upgraded'') (relpath lib path (repo_path cm))) \<rparr>"
    and "d_files d1 (path_join (path_join (cache_dir cm) ''upgraded'') (relpath lib path (repo_path cm))) =
           Some output"
proof -
  define rp where "rp = relpath lib path (repo_path cm)"
  define ccp where "ccp = path_join (path_join (cache_dir cm) ''upgraded'') rp"
  have ne_file: "ccp \<noteq> cache_file cm"
    unfolding ccp_def rp_def using rel by (rule code_cache_path_not_cache_file)
  from recorded succ nonempty
  have cm1: "repo_path cm1 = repo_path cm \<and>
      cache_data cm1 rp =
           Some \<lparr> ce_success = Some True,
                  ce_attempts = attempts result,
                  ce_timestamp = stamp,
                  ce_input_hash = Some (get_file_hash lib d path),
                  ce_error = error result,
                  ce_api_changes = api_changes result,
                  ce_cached_output = Some ccp \<rparr>"
    by (auto simp: cache_result_def Let_def rp_def ccp_def split: option.splits prod.splits)
  from recorded succ nonempty
  have "d_files d1 = (d_files d)(ccp \<mapsto> output, cache_file cm \<mapsto> json_dump lib (cache_data cm1))"
    by (auto simp: cache_result_def Let_def rp_def ccp_def save_cache_def write_text_def
               cache_file_def cache_dir_def
             split: option.splits prod.splits)
  then have copy: "d_files d1 ccp = Some output" using ne_file by simp
  from cm1 show "repo_path cm1 = repo_path cm" by simp
  from cm1 show "cache_data cm1 (relpath lib path (repo_path cm)) =
           Some \<lparr> ce_success = Some True,
                  ce_attempts = attempts result,
                  ce_timestamp = stamp,
                  ce_input_hash = Some (get_file_hash lib d path),
                  ce_error = error result,
                  ce_api_changes = api_changes result,
                  ce_cached_output =
                    Some (path_join (path_join (cache_dir cm) ''upgraded'') (relpath lib path (repo_path cm))) \<rparr>"
    by (simp add: rp_def ccp_def)
  from copy show "d_files d1 (path_join (path_join (cache_dir cm) ''upgraded'') (relpath lib path (repo_path cm))) =
           Some output"
    by (simp add: rp_def ccp_def)
qed

text \<open>
  C7 as stated fails in three ways. \<^const>\<open>cache_result\<close> stores the output only
  when it is a non-empty string: after recording a success with the empty string
  as output the file counts as cached, but \<^const>\<open>restore_from_cache\<close> returns
  \<open>False\<close> and leaves the destination unwritten. The stored copy is read in text
  mode: an output with the line \<^verbatim>\<open>x = 2\<close> ended by a carriage return and a line
  feed is restored with a line feed alone. And when the destination cannot be
  opened for writing, \<^const>\<open>restore_from_cache\<close> returns \<open>False\<close> and writes
  nothing.
\<close>

theorem cache_round_trip_counterexample:
  "(case cache_result
           \<lparr>relpath = (\<lambda>p r. drop (length r + 1) p), md5_hexdigest = rev,
            json_dump = (\<lambda>t. ''{}'')\<rparr>
           \<lparr>repo_path = ''repo'', cache_data = Map.empty\<rparr>
           \<lparr>d_files = [''repo/a.py'' \<mapsto> ''x = 1''], d_makedirs = (\<lambda>p. None),
            d_open_w = (\<lambda>p. None)\<rparr>
           ''repo/a.py''
           \<lparr>file_path = ''repo/a.py'', success = True, attempts = 1, api_changes = [],
            error = None, diff = None\<rparr>
           (Some '''') ''2024-01-01''
    of (raised, cm1, d1) \<Rightarrow>
      raised = None \<and>
      is_file_cached
        \<lparr>relpath = (\<lambda>p r. drop (length r + 1) p), md5_hexdigest = rev,
         json_dump = (\<lambda>t. ''{}'')\<rparr> cm1 d1 ''repo/a.py'' \<and>
      fst (restore_from_cache
        \<lparr>relpath = (\<lambda>p r. drop (length r + 1) p), md5_hexdigest = rev,
         json_dump = (\<lambda>t. ''{}'')\<rparr> cm1 d1 ''repo/a.py'' ''repo/out.py'') = False \<and>
      d_files (snd (restore_from_cache
        \<lparr>relpath = (\<lambda>p r. drop (length r + 1) p), md5_hexdigest = rev,
         json_dump = (\<lambda>t. ''{}'')\<rparr> cm1 d1 ''repo/a.py'' ''repo/out.py'')) ''repo/out.py'' = None) \<and>
   (case cache_result
           \<lparr>relpath = (\<lambda>p r. drop (length r + 1) p), md5_hexdigest = rev,
            json_dump = (\<lambda>t. ''{}'')\<rparr>
           \<lparr>repo_path = ''repo'', cache_data = Map.empty\<rparr>
           \<lparr>d_files = [''repo/a.py'' \<mapsto> ''x = 1''], d_makedirs = (\<lambda>p. None),
            d_open_w = (\<lambda>p. None)\<rparr>
           ''repo/a.py''
           \<lparr>file_path = ''repo/a.py'', success = True, attempts = 1, api_changes = [],
            error = None, diff = None\<rparr>
           (Some (''x = 2'' @ [CHR 0x0D, CHR 0x0A])) ''2024-01-01''
    of (raised, cm1, d1) \<Rightarrow>
      raised = None \<and>
      is_file_cached
        \<lparr>relpath = (\<lambda>p r. drop (length r + 1) p), md5_hexdigest = rev,
         json_dump = (\<lambda>t. ''{}'')\<rparr> cm1 d1 ''repo/a.py'' \<and>
      fst (restore_from_cache
        \<lparr>relpath = (\<lambda>p r. drop (length r + 1) p), md5_hexdigest = rev,
         json_dump = (\<lambda>t. ''{}'')\<rparr> cm1 d1 ''repo/a.py'' ''repo/out.py'') = True \<and>
      d_files (snd (restore_from_cache
        \<lparr>relpath = (\<lambda>p r. drop (length r + 1) p), md5_hexdigest = rev,
         json_dump = (\<lambda>t. ''{}'')\<rparr> cm1 d1 ''repo/a.py'' ''repo/out.py'')) ''repo/out.py'' =
        Some (''x = 2'' @ [CHR 0x0A]) \<and>
      ''x = 2'' @ [CHR 0x0A] \<noteq> ''x = 2'' @ [CHR 0x0D, CHR 0x0A]) \<and>
   (case cache_result
           \<lparr>relpath = (\<lambda>p r. drop (length r + 1) p), md5_hexdigest = rev,
            json_dump = (\<lambda>t. ''{}'')\<rparr>
           \<lparr>repo_path = ''repo'', cache_data = Map.empty\<rparr>
           \<lparr>d_files = [''repo/a.py'' \<mapsto> ''x = 1''], d_makedirs = (\<lambda>p. None),
            d_open_w = (\<lambda>p. if p = ''/readonly/out.py''
                              then Some (OSError ''[Errno 13] Permission denied'') else None)\<rparr>
           ''repo/a.py''
           \<lparr>file_path = ''repo/a.py'', success = True, attempts = 1, api_changes = [],
            error = None, diff = None\<rparr>
           (Some ''x = 2'') ''2024-01-01''
    of (raised, cm1, d1) \<Rightarrow>
      raised = None \<and>
      is_file_cached
        \<lparr>relpath = (\<lambda>p r. drop (length r + 1) p), md5_hexdigest = rev,
         json_dump = (\<lambda>t. ''{}'')\<rparr> cm1 d1 ''repo/a.py'' \<and>
      fst (restore_from_cache
        \<lparr>relpath = (\<lambda>p r. drop (length r + 1) p), md5_hexdigest = rev,
         json_dump = (\<lambda>t. ''{}'')\<rparr> cm1 d1 ''repo/a.py'' ''/readonly/out.py'') = False \<and>
      d_files (snd (restore_from_cache
        \<lparr>relpath = (\<lambda>p r. drop (length r + 1) p), md5_hexdigest = rev,
         json_dump = (\<lambda>t. ''{}'')\<rparr> cm1 d1 ''repo/a.py'' ''/readonly/out.py'')) ''/readonly/out.py'' = None)"
  by (simp add: cache_result_def is_file_cached_def restore_from_cache_def get_file_hash_def
        save_cache_def write_text_def read_text_def os_path_exists_def dirname_def
        cache_file_def cache_dir_def path_join_def carriage_return_def newline_def Let_def)

text \<open>
  C7, amended. After \<^const>\<open>cache_result\<close> has returned from recording a
  successful result with a non-empty output \<open>output\<close> for the file \<open>path\<close>, on every
  later disk \<open>d2\<close> that still holds the stored copy and on which the file hashes as
  it did when it was recorded, \<^const>\<open>is_file_cached\<close> answers yes. On such a disk
  \<^const>\<open>restore_from_cache\<close>, when the destination can be opened for writing,
  answers \<open>True\<close> and writes the output as it reads it back in text mode, which
  is exactly \<open>output\<close> when that has no carriage return; when the destination
  cannot be opened, it answers \<open>False\<close> and leaves the disk as it is.
  (The relative path that \<^verbatim>\<open>os.path.relpath\<close> returns is never absolute.)
  And \<^const>\<open>is_file_cached\<close> answers no whenever the entry is absent, the current
  hash differs from the stored one, or the stored success flag is not true.
\<close>

theorem cache_round_trip:
  assumes succ: "success result"
    and nonempty: "output \<noteq> []"
    and rel: "relpath lib path (repo_path cm) = [] \<or> hd (relpath lib path (repo_path cm)) \<noteq> CHR ''/''"
    and recorded: "cache_result lib cm d path result (Some output) stamp = (None, cm1, d1)"
    and copy_kept:
      "d_files d2 (path_join (path_join (cache_dir cm) ''upgraded'') (relpath lib path (repo_path cm))) =
       d_files d1 (path_join (path_join (cache_dir cm) ''upgraded'') (relpath lib path (repo_path cm)))"
    and same_hash: "get_file_hash lib d2 path = get_file_hash lib d path"
  shows "is_file_cached lib cm1 d2 path \<and>
         (d_open_w d2 dest = None \<longrightarrow>
            restore_from_cache lib cm1 d2 path dest =
              (True, d2\<lparr>d_files := (d_files d2)(dest \<mapsto> universal_newlines output)\<rparr>)) \<and>
         (carriage_return \<notin> set output \<longrightarrow> universal_newlines output = output) \<and>
         (d_open_w d2 dest \<noteq> None \<longrightarrow> restore_from_cache lib cm1 d2 path dest = (False, d2)) \<and>
         (cache_data cm' (relpath lib p (repo_path cm')) = None \<longrightarrow> \<not> is_file_cached lib cm' d' p) \<and>
         (\<forall>entry. cache_data cm' (relpath lib p (repo_path cm')) = Some entry \<and>
             (get_file_hash lib d' p \<noteq> (case ce_input_hash entry of None \<Rightarrow> '''' | Some h \<Rightarrow> h) \<or>
              ce_success entry \<noteq> Some True)
           \<longrightarrow> \<not> is_file_cached lib cm' d' p)"
proof -
  define rp where "rp = relpath lib path (repo_path cm)"
  define ccp where "ccp = path_join (path_join (cache_dir cm) ''upgraded'') rp"
  note stored = cache_result_stored [OF succ nonempty rel recorded]
  have entry: "cache_data cm1 rp =
           Some \<lparr> ce_success = Some True,
                  ce_attempts = attempts result,
                  ce_timestamp = stamp,
                  ce_input_hash = Some (get_file_hash lib d path),
                  ce_error = error result,
                  ce_api_changes = api_changes result,
                  ce_cached_output = Some ccp \<rparr>"
    unfolding ccp_def rp_def by (rule stored(2))
  have ne_empty: "ccp \<noteq> []"
    unfolding ccp_def rp_def using rel by (rule code_cache_path_not_empty)
  have rp1: "relpath lib path (repo_path cm1) = rp"
    using stored(1) by (simp add: rp_def)
  have copy: "d_files d2 ccp = Some output"
    using copy_kept stored(3) by (simp add: ccp_def rp_def)
  have hit: "is_file_cached lib cm1 d2 path"
    using entry same_hash by (simp add: is_file_cached_iff rp1)
  have restore: "restore_from_cache lib cm1 d2 path dest =
      (True, d2\<lparr>d_files := (d_files d2)(dest \<mapsto> universal_newlines output)\<rparr>)"
    if "d_open_w d2 dest = None"
    using that entry copy ne_empty
    by (simp add: restore_from_cache_def Let_def rp1 os_path_exists_def read_text_def write_text_def)
  have refused: "restore_from_cache lib cm1 d2 path dest = (False, d2)"
    if "d_open_w d2 dest \<noteq> None"
    using that entry copy ne_empty
    by (auto simp: restore_from_cache_def Let_def rp1 os_path_exists_def read_text_def write_text_def)
  have miss: "(cache_data cm' (relpath lib p (repo_path cm')) = None \<longrightarrow> \<not> is_file_cached lib cm' d' p) \<and>
         (\<forall>entry. cache_data cm' (relpath lib p (repo_path cm')) = Some entry \<and>
             (get_file_hash lib d' p \<noteq> (case ce_input_hash entry of None \<Rightarrow> '''' | Some h \<Rightarrow> h) \<or>
              ce_success entry \<noteq> Some True)
           \<longrightarrow> \<not> is_file_cached lib cm' d' p)"
    by (auto simp: is_file_cached_iff)
  from hit restore refused universal_newlines_plain [of "output"] miss show ?thesis by blast
qed

theorem cache_round_trip_witness:
  "(case cache_result
           \<lparr>relpath = (\<lambda>p r. drop (length r + 1) p), md5_hexdigest = rev,
            json_dump = (\<lambda>t. ''{}'')\<rparr>
           \<lparr>repo_path = ''repo'', cache_data = Map.empty\<rparr>
           \<lparr>d_files = [''repo/a.py'' \<mapsto> ''x = 1''], d_makedirs = (\<lambda>p. None),
            d_open_w = (\<lambda>p. if p = ''/readonly/out.py''
                              then Some (OSError ''[Errno 13] Permission denied'') else None)\<rparr>
           ''repo/a.py''
           \<lparr>file_path = ''repo/a.py'', success = True, attempts = 1, api_changes = [],
            error = None, diff = None\<rparr>
           (Some ''x = 2'') ''2024-01-01''
    of (raised, cm1, d1) \<Rightarrow>
      raised = None \<and>
      is_file_cached
        \<lparr>relpath = (\<lambda>p r. drop (length r + 1) p), md5_hexdigest = rev,
         json_dump = (\<lambda>t. ''{}'')\<rparr> cm1 d1 ''repo/a.py'' \<and>
      restore_from_cache
        \<lparr>relpath = (\<lambda>p r. drop (length r + 1) p), md5_hexdigest = rev,
         json_dump = (\<lambda>t. ''{}'')\<rparr> cm1 d1 ''repo/a.py'' ''repo/out.py'' =
        (True, d1\<lparr>d_files := (d_files d1)(''repo/out.py'' \<mapsto> ''x = 2'')\<rparr>) \<and>
      restore_from_cache
        \<lparr>relpath = (\<lambda>p r. drop (length r + 1) p), md5_hexdigest = rev,
         json_dump = (\<lambda>t. ''{}'')\<rparr> cm1 d1 ''repo/a.py'' ''/readonly/out.py'' = (False, d1))"
proof -
  define lib where "lib = \<lparr>relpath = (\<lambda>p r. drop (length r + 1) p),
      md5_hexdigest = rev, json_dump = (\<lambda>t :: string \<rightharpoonup> cache_entry. ''{}'')\<rparr>"
  define cm where "cm = \<lparr>repo_path = ''repo'', cache_data = Map.empty\<rparr>"
  define d where "d = \<lparr>d_files = [''repo/a.py'' \<mapsto> ''x = 1''], d_makedirs = (\<lambda>p. None),
            d_open_w = (\<lambda>p. if p = ''/readonly/out.py''
                              then Some (OSError ''[Errno 13] Permission denied'') else None)\<rparr>"
  define result where "result = \<lparr>file_path = ''repo/a.py'', success = True, attempts = 1,
      api_changes = [], error = None, diff = None\<rparr>"
  obtain raised cm1 d1 where
    run: "cache_result lib cm d ''repo/a.py'' result (Some ''x = 2'') ''2024-01-01'' = (raised, cm1, d1)"
    by (cases "cache_result lib cm d ''repo/a.py'' result (Some ''x = 2'') ''2024-01-01''")
  have raised: "raised = None"
    using run
    by (auto simp: cache_result_def Let_def lib_def cm_def d_def result_def save_cache_def
          write_text_def dirname_def cache_file_def cache_dir_def path_join_def)
  have d1: "d_files d1 = [''repo/a.py'' \<mapsto> ''x = 1'',
                          ''repo/.ml_upgrader_cache/upgraded/a.py'' \<mapsto> ''x = 2'',
                          ''repo/.ml_upgrader_cache/upgrade_cache.json'' \<mapsto> ''{}'']"
    and open1: "d_open_w d1 = d_open_w d"
    using run
    by (auto simp: cache_result_def Let_def lib_def cm_def d_def result_def save_cache_def
          write_text_def dirname_def cache_file_def cache_dir_def path_join_def)
  have rec: "cache_result lib cm d ''repo/a.py'' result (Some ''x = 2'') ''2024-01-01'' = (None, cm1, d1)"
    using run raised by simp
  have h1: "success result" by (simp add: result_def)
  have h2: "''x = 2'' \<noteq> []" by simp
  have h3: "relpath lib ''repo/a.py'' (repo_path cm) = [] \<or> hd (relpath lib ''repo/a.py'' (repo_path cm)) \<noteq> CHR ''/''"
    by (simp add: lib_def cm_def)
  have h6: "get_file_hash lib d1 ''repo/a.py'' = get_file_hash lib d ''repo/a.py''"
    by (simp add: d1 get_file_hash_def d_def)
  have plain: "carriage_return \<notin> set ''x = 2''" by (simp add: carriage_return_def)
  have w1: "d_open_w d1 ''repo/out.py'' = None" by (simp add: open1 d_def)
  have w2: "d_open_w d1 ''/readonly/out.py'' \<noteq> None" by (simp add: open1 d_def)
  from cache_round_trip [OF h1 h2 h3 rec refl h6, of "''repo/out.py''"] w1 plain
  have a: "is_file_cached lib cm1 d1 ''repo/a.py'' \<and>
        restore_from_cache lib cm1 d1 ''repo/a.py'' ''repo/out.py'' =
          (True, d1\<lparr>d_files := (d_files d1)(''repo/out.py'' \<mapsto> ''x = 2'')\<rparr>)"
    by simp
  from cache_round_trip [OF h1 h2 h3 rec refl h6, of "''/readonly/out.py''"] w2
  have b: "restore_from_cache lib cm1 d1 ''repo/a.py'' ''/readonly/out.py'' = (False, d1)"
    by blast
  from run raised a b show ?thesis
    unfolding lib_def cm_def d_def result_def by simp
qed


subsection \<open>The whole-file retry loop\<close>

lemma upto_step: "i \<le> j \<Longrightarrow> [i..j] = i # [i + 1..j]"
  by (rule upto_rec1)

text \<open>
  C8. Let a pass of the whole-file loop with attempt number \<open>attempt\<close> (at most the
  configured maximum) get a response from the model whose cleaned text passes both
  rejection checks, is written, and fails validation with the message \<open>verr\<close>. Then
  the pass ends with the candidate as the new current content and \<open>verr\<close> as the
  prior error. If \<open>attempt + 1\<close> is still at most the maximum, the rest of the run
  is the pass with attempt number \<open>attempt + 1\<close> on the candidate and \<open>verr\<close>,
  followed by the loop from \<open>attempt + 2\<close>; otherwise the loop is over and the
  failure result carries the maximum as attempt count and the validator's message.
\<close>

theorem validation_failure_feeds_candidate_forward:
  assumes in_range: "attempt \<le> retries"
    and prompt: "build_prompt env current_code err = Inr prompt"
    and answered: "call_llm env (w_llm_calls w) prompt = Inr response"
    and passes: "rejection (clean_llm_response response) = None"
    and written: "write_file env (w_files w) output_path (clean_llm_response response) = (None, fs')"
    and invalid: "validate_code env fs' output_path = Inr (False, verr)"
  shows "standard_attempt env input_path output_path old_code attempt current_code err w =
           (Continue (clean_llm_response response) verr,
            \<lparr>w_files = fs', w_llm_calls = Suc (w_llm_calls w)\<rparr>) \<and>
         standard_loop env input_path output_path old_code retries [attempt..retries] current_code err w =
           (if attempt + 1 \<le> retries
            then (case standard_attempt env input_path output_path old_code (attempt + 1)
                         (clean_llm_response response) verr
                         \<lparr>w_files = fs', w_llm_calls = Suc (w_llm_calls w)\<rparr> of
                    (Return result, w') \<Rightarrow> (result, w')
                  | (Continue current_code' err', w') \<Rightarrow>
                      standard_loop env input_path output_path old_code retries [attempt + 2..retries]
                        current_code' err' w')
            else (\<lparr> file_path = input_path, success = False, attempts = retries, api_changes = [],
                     error = Some (case verr of
                                     None \<Rightarrow> ''Maximum retries exceeded''
                                   | Some msg \<Rightarrow> if msg = [] then ''Maximum retries exceeded'' else msg),
                     diff = None \<rparr>,
                  \<lparr>w_files = fs', w_llm_calls = Suc (w_llm_calls w)\<rparr>))"
proof -
  define w' where "w' = \<lparr>w_files = fs', w_llm_calls = Suc (w_llm_calls w)\<rparr>"
  have w': "w\<lparr>w_llm_calls := Suc (w_llm_calls w), w_files := fs'\<rparr> = w'"
    by (simp add: w'_def)
  have step: "standard_attempt env input_path output_path old_code attempt current_code err w =
                (Continue (clean_llm_response response) verr, w')"
    using prompt answered passes written invalid
    by (simp add: standard_attempt_def Let_def w')
  have first: "standard_loop env input_path output_path old_code retries [attempt..retries] current_code err w =
                 standard_loop env input_path output_path old_code retries [attempt + 1..retries]
                   (clean_llm_response response) verr w'"
    using step by (simp add: upto_step [OF in_range])
  show ?thesis
  proof (cases "attempt + 1 \<le> retries")
    case True
    then have "[attempt + 1..retries] = (attempt + 1) # [attempt + 2..retries]"
      using upto_step [of "attempt + 1" retries] by (simp add: add.assoc)
    with first step True show ?thesis by (simp add: w'_def)
  next
    case False
    then have "[attempt + 1..retries] = []" by simp
    with first step False show ?thesis by (simp add: w'_def)
  qed
qed

lemma clean_plain_text: "clean_llm_response ''x = 2'' = ''x = 2''"
  by code_simp

lemma plain_text_not_rejected: "rejection ''x = 2'' = None"
  by code_simp

theorem validation_failure_feeds_candidate_forward_witness:
  "(1::int) \<le> 2 \<and>
   rejection (clean_llm_response ''x = 2'') = None \<and>
   standard_attempt (sample_env (\<lambda>n. Inr ''x = 2'') (\<lambda>c. (False, Some ''bad syntax'')))
       ''a.py'' ''out.py'' ''x = 1'' 1 ''x = 1'' None \<lparr>w_files = Map.empty, w_llm_calls = 0\<rparr> =
     (Continue ''x = 2'' (Some ''bad syntax''),
      \<lparr>w_files = [''out.py'' \<mapsto> ''x = 2''], w_llm_calls = 1\<rparr>)"
proof -
  define env where "env = sample_env (\<lambda>n. Inr ''x = 2'') (\<lambda>c. (False, Some ''bad syntax''))"
  define w where "w = \<lparr>w_files = (Map.empty :: file_system), w_llm_calls = 0\<rparr>"
  have h1: "(1::int) \<le> 2" by simp
  have h2: "build_prompt env ''x = 1'' None = Inr ''None|x = 1''"
    by (simp add: env_def sample_env_def str_of_option_def)
  have h3: "call_llm env (w_llm_calls w) ''None|x = 1'' = Inr ''x = 2''"
    by (simp add: env_def sample_env_def)
  have h4: "rejection (clean_llm_response ''x = 2'') = None"
    by (simp add: clean_plain_text plain_text_not_rejected)
  have h5: "write_file env (w_files w) ''out.py'' (clean_llm_response ''x = 2'') =
              (None, [''out.py'' \<mapsto> ''x = 2''])"
    by (simp add: env_def sample_env_def w_def clean_plain_text)
  have h6: "validate_code env [''out.py'' \<mapsto> ''x = 2''] ''out.py'' = Inr (False, Some ''bad syntax'')"
    by (simp add: env_def sample_env_def)
  from validation_failure_feeds_candidate_forward [OF h1 h2 h3 h4 h5 h6, of "''a.py''" "''x = 1''"]
  have "standard_attempt env ''a.py'' ''out.py'' ''x = 1'' 1 ''x = 1'' None w =
          (Continue (clean_llm_response ''x = 2'') (Some ''bad syntax''),
           \<lparr>w_files = [''out.py'' \<mapsto> ''x = 2''], w_llm_calls = Suc (w_llm_calls w)\<rparr>)"
    by blast
  then show ?thesis
    using h4 by (simp add: env_def w_def clean_plain_text)
qed

text \<open>
  A run of the whole loop on the sample collaborators: the first answer fails
  validation, the second passes; the second prompt is built from the first answer
  and the validator's message, and the result counts two attempts.
\<close>

lemma standard_loop_example:
  "fst (upgrade_standard
          (sample_env (\<lambda>n. if n = 0 then Inr ''x = 2'' else Inr ''x = 3'')
                      (\<lambda>c. if c = ''x = 3'' then (True, None) else (False, Some ''bad syntax'')))
          ''a.py'' ''out.py'' ''x = 1'' 5 \<lparr>w_files = Map.empty, w_llm_calls = 0\<rparr>) =
     \<lparr> file_path = ''a.py'', success = True, attempts = 2, api_changes = [], error = None,
       diff = Some ''diff of a.py'' \<rparr>"
proof -
  have c3: "clean_llm_response ''x = 3'' = ''x = 3''" "rejection ''x = 3'' = None"
    by code_simp+
  have u: "[1..5::int] = 1 # 2 # [3..5]"
    by (simp add: upto_rec1)
  show ?thesis
    by (simp add: upgrade_standard_def u standard_attempt_def sample_env_def Let_def
          clean_plain_text plain_text_not_rejected c3 str_of_option_def)
qed

subsection \<open>Token-limit failures\<close>

lemma lower_append: "lower (a @ b) = lower a @ lower b"
  by (simp add: lower_def)

lemma contains_str_prefix: "contains_str pat (pat @ rest)"
proof (cases "pat @ rest")
  case Nil
  then show ?thesis by simp
next
  case (Cons c cs)
  have "take (length pat) (pat @ rest) = pat" by simp
  then have "starts_with (c # cs) pat" using Cons by (simp add: starts_with_def)
  then show ?thesis using Cons by simp
qed

lemma token_limit_result_detected: "token_limit_detected (token_limit_result input_path attempt msg)"
proof -
  have "lower ''Token limit exceeded: '' = ''token'' @ '' limit exceeded: ''"
    by code_simp
  then have "lower (''Token limit exceeded: '' @ msg) = ''token'' @ ('' limit exceeded: '' @ lower msg)"
    by (simp only: lower_append append_assoc)
  then have "contains_str ''token'' (lower (''Token limit exceeded: '' @ msg))"
    by (simp only: contains_str_prefix)
  then show ?thesis
    by (simp add: token_limit_detected_def token_limit_result_def)
qed

lemma many_newlines: "split_on sep (replicate n sep) = replicate (Suc n) []"
  by (induction n) simp_all

lemma token_limit_message: "is_token_limit_error ''token limit''"
  by code_simp

lemma one_line: "length (split_lines ''x = 1'') = 1"
  by code_simp

text \<open>
  C6 as stated fails for a file of fewer than 1000 lines: \<^const>\<open>upgrade_file\<close> hands
  such a file to the whole-file upgrade and returns its result as it is. Here the
  model raises a token-limit error on a one-line file; the result is the token-limit
  failure after a single call of the model, and the chunked upgrade, which would have
  made three more calls and reported a failed chunk, is not run.
\<close>

theorem small_file_not_escalated_counterexample:
  "upgrade_file (sample_env (\<lambda>n. Inl (Exception ''token limit'')) (\<lambda>c. (True, None)))
       ''a.py'' ''a.py'' \<lparr>w_files = [''a.py'' \<mapsto> ''x = 1''], w_llm_calls = 0\<rparr> =
     (Inr (token_limit_result ''a.py'' 1 ''token limit''),
      \<lparr>w_files = [''a.py'' \<mapsto> ''x = 1''], w_llm_calls = 1\<rparr>) \<and>
   upgrade_chunked (sample_env (\<lambda>n. Inl (Exception ''token limit'')) (\<lambda>c. (True, None)))
       ''a.py'' ''a.py'' ''x = 1'' \<lparr>w_files = [''a.py'' \<mapsto> ''x = 1''], w_llm_calls = 1\<rparr> =
     (Inr \<lparr> file_path = ''a.py'', success = False, attempts = 3, api_changes = [],
             error = Some ''Failed chunks: entire_file'', diff = None \<rparr>,
      \<lparr>w_files = [''a.py'' \<mapsto> ''x = 1''], w_llm_calls = 4\<rparr>)"
proof -
  have u5: "[1..5::int] = 1 # [2..5]" and u3: "[1..3::int] = [1, 2, 3]"
    by (simp_all add: upto_rec1)
  have a: "upgrade_file (sample_env (\<lambda>n. Inl (Exception ''token limit'')) (\<lambda>c. (True, None)))
       ''a.py'' ''a.py'' \<lparr>w_files = [''a.py'' \<mapsto> ''x = 1''], w_llm_calls = 0\<rparr> =
     (Inr (token_limit_result ''a.py'' 1 ''token limit''),
      \<lparr>w_files = [''a.py'' \<mapsto> ''x = 1''], w_llm_calls = 1\<rparr>)"
    by (simp add: upgrade_file_def sample_env_def one_line upgrade_standard_def u5
          standard_attempt_def handle_exception_def token_limit_message Let_def)
  have b: "upgrade_chunked (sample_env (\<lambda>n. Inl (Exception ''token limit'')) (\<lambda>c. (True, None)))
       ''a.py'' ''a.py'' ''x = 1'' \<lparr>w_files = [''a.py'' \<mapsto> ''x = 1''], w_llm_calls = 1\<rparr> =
     (Inr \<lparr> file_path = ''a.py'', success = False, attempts = 3, api_changes = [],
             error = Some ''Failed chunks: entire_file'', diff = None \<rparr>,
      \<lparr>w_files = [''a.py'' \<mapsto> ''x = 1''], w_llm_calls = 4\<rparr>)"
    by (simp add: upgrade_chunked_def chunk_by_functions_def sample_env_def u3 Let_def
          reassemble_def chunked_success_def chunked_error_def fun_upd_idem_iff)
  from a b show ?thesis by (rule conjI)
qed

text \<open>
  C6, amended. When, in any pass of the whole-file loop, the call of the model
  raises an exception whose text is classified as a token-limit error, the loop
  returns at once, whatever attempts are left: the result is the token-limit failure
  with the number of the current attempt, and the model has been called just once
  more. And when the whole-file upgrade of a readable file returns the token-limit
  failure, \<^const>\<open>upgrade_file\<close> goes on with the chunked upgrade if the file has at
  least 1000 and fewer than 3000 lines, and returns the failure as it is if the file
  has fewer than 1000 lines.
\<close>

theorem token_limit_aborts_and_escalates_medium_files:
  assumes prompt: "build_prompt env current_code err = Inr prompt"
    and raised: "call_llm env (w_llm_calls w) prompt = Inl e"
    and classified: "is_token_limit_error (str_of_exception e)"
  shows "standard_loop env input_path output_path old_code retries (attempt # rest) current_code err w =
           (token_limit_result input_path attempt (str_of_exception e),
            w\<lparr>w_llm_calls := Suc (w_llm_calls w)\<rparr>) \<and>
         (path_exists env (w_files w0) input_path \<and>
          should_skip_for_upgrade env (w_files w0) input_path = Inr skip \<and>
          (skip = None \<or> skip = Some []) \<and>
          read_file env (w_files w0) input_path = Inr code0 \<and>
          upgrade_standard env input_path output_path code0 (max_retries env) w0 =
            (token_limit_result input_path k msg, w1)
          \<longrightarrow>
            (1000 \<le> length (split_lines code0) \<and> length (split_lines code0) < 3000 \<longrightarrow>
               upgrade_file env input_path output_path w0 =
                 upgrade_chunked env input_path output_path code0 w1) \<and>
            (length (split_lines code0) < 1000 \<longrightarrow>
               upgrade_file env input_path output_path w0 =
                 (Inr (token_limit_result input_path k msg), w1)))"
proof -
  have abort: "standard_loop env input_path output_path old_code retries (attempt # rest) current_code err w =
           (token_limit_result input_path attempt (str_of_exception e),
            w\<lparr>w_llm_calls := Suc (w_llm_calls w)\<rparr>)"
    using prompt raised classified
    by (simp add: standard_attempt_def handle_exception_def Let_def)
  have tiers:
    "(1000 \<le> length (split_lines code0) \<and> length (split_lines code0) < 3000 \<longrightarrow>
        upgrade_file env input_path output_path w0 =
          upgrade_chunked env input_path output_path code0 w1) \<and>
     (length (split_lines code0) < 1000 \<longrightarrow>
        upgrade_file env input_path output_path w0 =
          (Inr (token_limit_result input_path k msg), w1))"
    if "path_exists env (w_files w0) input_path"
      and "should_skip_for_upgrade env (w_files w0) input_path = Inr skip"
      and "skip = None \<or> skip = Some []"
      and "read_file env (w_files w0) input_path = Inr code0"
      and "upgrade_standard env input_path output_path code0 (max_retries env) w0 =
            (token_limit_result input_path k msg, w1)"
    using that token_limit_result_detected [of input_path k msg]
    by (auto simp: upgrade_file_def Let_def)
  from abort tiers show ?thesis by blast
qed

theorem token_limit_aborts_and_escalates_medium_files_witness:
  "is_token_limit_error (str_of_exception (Exception ''token limit'')) \<and>
   standard_loop (sample_env (\<lambda>n. Inl (Exception ''token limit'')) (\<lambda>c. (True, None)))
       ''a.py'' ''a.py'' (replicate 999 newline) 5 (1 # [2..5]) (replicate 999 newline) None
       \<lparr>w_files = [''a.py'' \<mapsto> replicate 999 newline], w_llm_calls = 0\<rparr> =
     (token_limit_result ''a.py'' 1 ''token limit'',
      \<lparr>w_files = [''a.py'' \<mapsto> replicate 999 newline], w_llm_calls = 1\<rparr>) \<and>
   length (split_lines (replicate 999 newline)) = 1000 \<and>
   upgrade_file (sample_env (\<lambda>n. Inl (Exception ''token limit'')) (\<lambda>c. (True, None)))
       ''a.py'' ''a.py'' \<lparr>w_files = [''a.py'' \<mapsto> replicate 999 newline], w_llm_calls = 0\<rparr> =
     upgrade_chunked (sample_env (\<lambda>n. Inl (Exception ''token limit'')) (\<lambda>c. (True, None)))
       ''a.py'' ''a.py'' (replicate 999 newline)
       \<lparr>w_files = [''a.py'' \<mapsto> replicate 999 newline], w_llm_calls = 1\<rparr>"
proof -
  define env where "env = sample_env (\<lambda>n. Inl (Exception ''token limit'')) (\<lambda>c. (True, None))"
  define code0 where "code0 = replicate 999 newline"
  define w0 where "w0 = \<lparr>w_files = [''a.py'' \<mapsto> code0], w_llm_calls = 0\<rparr>"
  define w1 where "w1 = \<lparr>w_files = [''a.py'' \<mapsto> code0], w_llm_calls = 1\<rparr>"
  have h1: "build_prompt env code0 None = Inr (''None|'' @ code0)"
    by (simp add: env_def sample_env_def str_of_option_def)
  have h2: "call_llm env (w_llm_calls w0) (''None|'' @ code0) = Inl (Exception ''token limit'')"
    by (simp add: env_def sample_env_def)
  have h3: "is_token_limit_error (str_of_exception (Exception ''token limit''))"
    by (simp add: token_limit_message)
  have lines: "length (split_lines code0) = 1000"
    by (simp add: code0_def split_lines_def many_newlines)
  note main = token_limit_aborts_and_escalates_medium_files
    [OF h1 h2 h3, of "''a.py''" "''a.py''" code0 5 1 "[2..5]" w0 None code0 1 "''token limit''" w1]
  from main have loop: "standard_loop env ''a.py'' ''a.py'' code0 5 (1 # [2..5]) code0 None w0 =
      (token_limit_result ''a.py'' 1 ''token limit'', w1)"
    by (simp add: w0_def w1_def)
  have "[1..5::int] = 1 # [2..5]" by (simp add: upto_rec1)
  with loop have std: "upgrade_standard env ''a.py'' ''a.py'' code0 (max_retries env) w0 =
      (token_limit_result ''a.py'' 1 ''token limit'', w1)"
    by (simp add: upgrade_standard_def env_def sample_env_def)
  have pre: "path_exists env (w_files w0) ''a.py''"
    "should_skip_for_upgrade env (w_files w0) ''a.py'' = Inr None"
    "read_file env (w_files w0) ''a.py'' = Inr code0"
    by (simp_all add: env_def sample_env_def w0_def)
  from main pre std lines
  have "upgrade_file env ''a.py'' ''a.py'' w0 = upgrade_chunked env ''a.py'' ''a.py'' code0 w1"
    by simp
  with h3 loop lines show ?thesis
    by (simp add: env_def code0_def w0_def w1_def)
qed

text \<open>\<^const>\<open>clean_llm_response\<close> on a fenced answer, on a lone opening fence and on an empty fence.\<close>

lemma clean_llm_response_examples:
  "clean_llm_response (''x'' @ fence @ ''python '' @ [newline] @ '' a=1'' @ [newline] @ fence @ '' tail '' @ fence) = ''a=1''"
  "clean_llm_response (fence @ [CHR 0x60]) = fence @ [CHR 0x60]"
  "clean_llm_response (fence @ fence) = []"
  by code_simp+

subsection \<open>The aggregate result of a chunked upgrade\<close>

lemma chunk_by_lines_not_Nil:
  assumes "0 < max_lines" and "chunk_by_lines max_lines code = Inr cs"
  shows "cs \<noteq> []"
proof -
  have "0 < length (split_lines code)"
    using split_on_not_Nil [of newline code] by (simp add: split_lines_def)
  then have "range_from 0 (length (split_lines code)) (nat max_lines) \<noteq> []"
    using assms(1) by (simp add: range_from_Nil_iff)
  then show ?thesis
    using assms by (auto simp: chunk_by_lines_def py_range_def Let_def)
qed

lemma chunk_by_functions_not_Nil:
  assumes "chunk_by_functions 300 parse code = Inr chunks"
  shows "chunks \<noteq> []"
proof (cases "parse code")
  case (Inl e)
  with assms obtain m where "chunk_by_lines 300 code = Inr chunks"
    by (cases e) (auto simp: chunk_by_functions_def)
  then show ?thesis using chunk_by_lines_not_Nil [of 300 code chunks] by simp
next
  case (Inr tree)
  with assms show ?thesis
    by (auto simp: chunk_by_functions_def Let_def split: sum.splits if_splits)
qed

lemma success_rate_threshold:
  "0 < n \<Longrightarrow> (real n - real f) / real n \<ge> 0.8 \<longleftrightarrow> real f / real n \<le> 0.2"
proof -
  assume "0 < n"
  then have "(real n - real f) / real n = 1 - real f / real n"
    by (simp add: diff_divide_distrib)
  then show ?thesis by simp
qed

text \<open>
  C5. Take a chunked upgrade whose chunks are \<open>chunks\<close>, whose loop over the chunks
  ends with the accumulators \<open>acc\<close>, whose reassembled text is written without an
  exception, leaving the files \<open>fs'\<close>, and validated as \<open>(is_valid, final_error)\<close>
  (and whose diff, made only on success, does not raise). Then the upgrade returns a
  result; the files it leaves are \<open>fs'\<close>, with the reassembled text written, whether
  the result is a success or not; the result is a success exactly when the
  validation passed and the failed chunks are at most 0.2 of all chunks; and a
  result that is no success carries an error text that names the failed chunks, if
  there are any, and gives the validation error, if the validation failed.
  The quotient of the two counts and its comparison with 0.8 are taken in exact
  arithmetic.
\<close>

theorem chunked_success_iff_valid_and_few_failures:
  assumes chunks: "chunk_by_functions 300 (ast_parse env) old_code = Inr chunks"
    and processed: "process_chunks env chunks
          \<lparr>upgraded_chunks = [], all_api_changes = [], total_attempts = 0, failed_chunks = []\<rparr>
          (w_llm_calls w) = (acc, n)"
    and written: "write_file env (w_files w) output_path (reassemble (hd chunks) (upgraded_chunks acc)) =
                    (None, fs')"
    and validated: "validate_code env fs' output_path = Inr (is_valid, final_error)"
    and diffed: "generate_diff env old_code (reassemble (hd chunks) (upgraded_chunks acc))
                    (basename env input_path) = Inr d"
  shows "\<exists>result.
           upgrade_chunked env input_path output_path old_code w =
             (Inr result, \<lparr>w_files = fs', w_llm_calls = n\<rparr>) \<and>
           (success result \<longleftrightarrow>
              is_valid \<and> real (length (failed_chunks acc)) / real (length chunks) \<le> 0.2) \<and>
           (\<not> success result \<longrightarrow>
              error result \<noteq> None \<and>
              (failed_chunks acc \<noteq> [] \<longrightarrow>
                 (\<exists>rest. error result =
                    Some (''Failed chunks: '' @ join_with '', '' (failed_chunks acc) @ rest))) \<and>
              (\<not> is_valid \<longrightarrow>
                 (\<exists>front. error result =
                    Some (front @ ''Validation error: '' @ str_of_option final_error))))"
proof -
  have ne: "chunks \<noteq> []" using chunks by (rule chunk_by_functions_not_Nil)
  then obtain first_chunk others where cs: "chunks = first_chunk # others"
    by (cases chunks) auto
  define ok where "ok = chunked_success is_valid (length chunks) (length (failed_chunks acc))"
  define msg where "msg = chunked_error (failed_chunks acc) is_valid final_error"
  define w' where "w' = \<lparr>w_files = fs', w_llm_calls = n\<rparr>"
  define result where
    "result = \<lparr> file_path = input_path, success = ok, attempts = total_attempts acc,
                api_changes = all_api_changes acc, error = msg,
                diff = (if ok then Some d else None) \<rparr>"
  have w': "w\<lparr>w_llm_calls := n, w_files := fs'\<rparr> = w'" by (simp add: w'_def)
  have run: "upgrade_chunked env input_path output_path old_code w = (Inr result, w')"
    using chunks processed written validated diffed
    by (simp add: upgrade_chunked_def cs Let_def w' result_def ok_def msg_def)
  have "0 < length chunks" using ne by simp
  then have rate: "success result \<longleftrightarrow>
      is_valid \<and> real (length (failed_chunks acc)) / real (length chunks) \<le> 0.2"
    using success_rate_threshold [of "length chunks" "length (failed_chunks acc)"]
    by (simp add: result_def ok_def chunked_success_def)
  have e1: "error result \<noteq> None" if "\<not> success result"
  proof -
    from that rate have "\<not> is_valid \<or> failed_chunks acc \<noteq> []" by auto
    then show ?thesis
      by (auto simp: result_def msg_def chunked_error_def Let_def)
  qed
  have e2: "\<exists>rest. error result =
              Some (''Failed chunks: '' @ join_with '', '' (failed_chunks acc) @ rest)"
    if "failed_chunks acc \<noteq> []"
  proof (cases is_valid)
    case True
    with that have "error result = Some (''Failed chunks: '' @ join_with '', '' (failed_chunks acc) @ [])"
      by (simp add: result_def msg_def chunked_error_def Let_def)
    then show ?thesis by blast
  next
    case False
    with that have "error result =
        Some (''Failed chunks: '' @ join_with '', '' (failed_chunks acc) @
              (''; Validation error: '' @ str_of_option final_error))"
      by (simp add: result_def msg_def chunked_error_def Let_def)
    then show ?thesis by blast
  qed
  have e3: "\<exists>front. error result = Some (front @ ''Validation error: '' @ str_of_option final_error)"
    if "\<not> is_valid"
  proof (cases "failed_chunks acc = []")
    case True
    with that have "error result = Some ([] @ ''Validation error: '' @ str_of_option final_error)"
      by (simp add: result_def msg_def chunked_error_def Let_def)
    then show ?thesis by blast
  next
    case False
    with that have "error result =
        Some ((''Failed chunks: '' @ join_with '', '' (failed_chunks acc) @ ''; '') @
              ''Validation error: '' @ str_of_option final_error)"
      by (simp add: result_def msg_def chunked_error_def Let_def)
    then show ?thesis by blast
  qed
  from run rate e1 e2 e3 show ?thesis unfolding w'_def by blast
qed

theorem chunked_success_iff_valid_and_few_failures_witness:
  "chunk_by_functions 300
      (ast_parse (sample_env (\<lambda>n. Inl (Exception ''timeout'')) (\<lambda>c. (True, None)))) ''x = 1'' =
     Inr [\<lparr> c_type = ''full'', c_name = ''entire_file'', c_code = ''x = 1'',
             c_start_line = 0, c_end_line = 1, c_imports = '''' \<rparr>] \<and>
   (\<exists>result.
      upgrade_chunked (sample_env (\<lambda>n. Inl (Exception ''timeout'')) (\<lambda>c. (True, None)))
          ''a.py'' ''out.py'' ''x = 1'' \<lparr>w_files = Map.empty, w_llm_calls = 0\<rparr> =
        (Inr result, \<lparr>w_files = [''out.py'' \<mapsto> ''x = 1''], w_llm_calls = 3\<rparr>) \<and>
      \<not> success result \<and> error result \<noteq> None)"
proof -
  define env where "env = sample_env (\<lambda>n. Inl (Exception ''timeout'')) (\<lambda>c. (True, None))"
  define w where "w = \<lparr>w_files = (Map.empty :: file_system), w_llm_calls = 0\<rparr>"
  define full where "full = \<lparr> c_type = ''full'', c_name = ''entire_file'', c_code = ''x = 1'',
             c_start_line = 0, c_end_line = 1, c_imports = '''' \<rparr>"
  define acc where "acc = \<lparr>upgraded_chunks = [''x = 1''], all_api_changes = [], total_attempts = 3,
      failed_chunks = [''entire_file'']\<rparr>"
  have u3: "[1..3::int] = [1, 2, 3]" by (simp add: upto_rec1)
  have h1: "chunk_by_functions 300 (ast_parse env) ''x = 1'' = Inr [full]"
    by (simp add: chunk_by_functions_def env_def sample_env_def Let_def one_line full_def)
  have h2: "process_chunks env [full]
          \<lparr>upgraded_chunks = [], all_api_changes = [], total_attempts = 0, failed_chunks = []\<rparr>
          (w_llm_calls w) = (acc, 3)"
    by (simp add: env_def sample_env_def full_def acc_def w_def u3 Let_def)
  have h3: "write_file env (w_files w) ''out.py'' (reassemble (hd [full]) (upgraded_chunks acc)) =
              (None, [''out.py'' \<mapsto> ''x = 1''])"
    by (simp add: env_def sample_env_def full_def acc_def w_def reassemble_def)
  have h4: "validate_code env [''out.py'' \<mapsto> ''x = 1''] ''out.py'' = Inr (True, None)"
    by (simp add: env_def sample_env_def)
  have h5: "generate_diff env ''x = 1'' (reassemble (hd [full]) (upgraded_chunks acc))
              (basename env ''a.py'') = Inr ''diff of a.py''"
    by (simp add: env_def sample_env_def)
  from chunked_success_iff_valid_and_few_failures [OF h1 h2 h3 h4 h5]
  obtain result where
    r1: "upgrade_chunked env ''a.py'' ''out.py'' ''x = 1'' w =
           (Inr result, \<lparr>w_files = [''out.py'' \<mapsto> ''x = 1''], w_llm_calls = 3\<rparr>)"
    and r2: "success result \<longleftrightarrow> True \<and> real (length (failed_chunks acc)) / real (length [full]) \<le> 0.2"
    and r3: "\<not> success result \<longrightarrow> error result \<noteq> None"
    by blast
  from r2 have "\<not> success result" by (simp add: acc_def)
  with r1 r3 h1 show ?thesis
    unfolding env_def w_def full_def by blast
qed

subsection \<open>Dependency levels\<close>

lemma map_of_dict_set: "map_of (dict_set levels k v) = (map_of levels)(k \<mapsto> v)"
  by (induction levels k v rule: dict_set.induct) auto

lemma fold_max_is_Max: "ls \<noteq> [] \<Longrightarrow> fold max (tl ls) (hd ls) = Max (set ls)"
  by (cases ls) (simp_all add: Max.set_eq_fold [symmetric])

text \<open>
  What every call does, cycles or not: the levels that are already assigned stay,
  no file that is being visited gets a level, and a file that is not being visited
  has the returned level afterwards.
\<close>

lemma get_level_general:
  "get_level g f vis levels = (l, levels') \<Longrightarrow>
     (\<forall>x y. map_of levels x = Some y \<longrightarrow> map_of levels' x = Some y) \<and>
     (\<forall>x. map_of levels x = None \<and> x \<in> vis \<longrightarrow> map_of levels' x = None) \<and>
     (f \<notin> vis \<longrightarrow> map_of levels' f = Some l)"
  "get_levels g ds vis levels = (ls, levels') \<Longrightarrow>
     (\<forall>x y. map_of levels x = Some y \<longrightarrow> map_of levels' x = Some y) \<and>
     (\<forall>x. map_of levels x = None \<and> x \<in> vis \<longrightarrow> map_of levels' x = None) \<and>
     (\<forall>d \<in> set ds. d \<notin> vis \<longrightarrow> map_of levels' d \<noteq> None)"
proof (induction g f vis levels and g ds vis levels arbitrary: l levels' and ls levels'
    rule: get_level_get_levels.induct)
  case (1 g f vis levels)
  note unf = get_level.simps(1) [of g f vis levels]
  show ?case
  proof (cases "map_of levels f")
    case (Some l0)
    with "1.prems" show ?thesis by (simp add: unf)
  next
    case None
    show ?thesis
    proof (cases "f \<in> vis")
      case True
      with None "1.prems" show ?thesis
        by (auto simp: unf split: list.splits)
    next
      case False
      show ?thesis
      proof (cases "deps_of g f")
        case Nil
        with None False "1.prems" have "levels' = dict_set levels f 0" "l = 0"
          by (simp_all add: unf)
        with None False show ?thesis by (auto simp: map_of_dict_set)
      next
        case (Cons dep deps)
        obtain ls levels1 where rec: "get_levels g (dep # deps) (insert f vis) levels = (ls, levels1)"
          by (cases "get_levels g (dep # deps) (insert f vis) levels")
        note IH = "1.IH" [OF None False Cons rec]
        have ext: "\<forall>x y. map_of levels x = Some y \<longrightarrow> map_of levels1 x = Some y"
          by (rule IH [THEN conjunct1])
        have fresh: "\<forall>x. map_of levels x = None \<and> x \<in> insert f vis \<longrightarrow> map_of levels1 x = None"
          by (rule IH [THEN conjunct2, THEN conjunct1])
        from None False Cons rec "1.prems"
        have res: "levels' = dict_set levels1 f l"
          by (auto simp: unf Let_def)
        from fresh None have f1: "map_of levels1 f = None" by simp
        show ?thesis
          using ext fresh f1 False unfolding res map_of_dict_set by auto
      qed
    qed
  qed
next
  case (2 g vis levels)
  then show ?case by (simp add: get_levels.simps)
next
  case (3 g dep deps vis levels)
  obtain l1 levels1 where a: "get_level g dep vis levels = (l1, levels1)"
    by (cases "get_level g dep vis levels")
  obtain ls2 levels2 where b: "get_levels g deps vis levels1 = (ls2, levels2)"
    by (cases "get_levels g deps vis levels1")
  from "3.prems" a b have res: "levels' = levels2" by (simp add: get_levels.simps)
  note A = "3.IH"(1) [OF a]
  note B = "3.IH"(2) [OF a [symmetric] b]
  note A1 = A [THEN conjunct1] and A2 = A [THEN conjunct2, THEN conjunct1]
    and A3 = A [THEN conjunct2, THEN conjunct2]
  note B1 = B [THEN conjunct1] and B2 = B [THEN conjunct2, THEN conjunct1]
    and B3 = B [THEN conjunct2, THEN conjunct2]
  have ext: "\<forall>x y. map_of levels x = Some y \<longrightarrow> map_of levels2 x = Some y"
    using A1 B1 by simp
  have fresh: "\<forall>x. map_of levels x = None \<and> x \<in> vis \<longrightarrow> map_of levels2 x = None"
    using A2 B2 by simp
  have "dep \<notin> vis \<longrightarrow> map_of levels2 dep \<noteq> None"
    using A3 B1 by auto
  then show ?case unfolding res using ext fresh B3 by simp
qed


text \<open>Adding a level for a new file that obeys the rule keeps the rule.\<close>

lemma follows_level_rule_dict_set:
  assumes rule: "follows_level_rule g levels"
    and new: "map_of levels f = None"
    and leaf: "deps_of g f = [] \<longrightarrow> l = 0"
    and inner: "deps_of g f \<noteq> [] \<longrightarrow>
                  (\<forall>d \<in> set (deps_of g f). map_of levels d \<noteq> None) \<and>
                  l = Max ((\<lambda>d. the (map_of levels d)) ` set (deps_of g f)) + 1"
  shows "follows_level_rule g (dict_set levels f l)"
proof -
  have same: "(\<lambda>d. the (((map_of levels)(f \<mapsto> l)) d)) ` set ds = (\<lambda>d. the (map_of levels d)) ` set ds"
    if "\<forall>d \<in> set ds. map_of levels d \<noteq> None" for ds
  proof (rule image_cong [OF refl])
    fix d assume "d \<in> set ds"
    with that new have "d \<noteq> f" by auto
    then show "the (((map_of levels)(f \<mapsto> l)) d) = the (map_of levels d)" by simp
  qed
  show ?thesis
    unfolding follows_level_rule_def map_of_dict_set
  proof (intro allI impI)
    fix a la
    assume a: "((map_of levels)(f \<mapsto> l)) a = Some la"
    show "(deps_of g a = [] \<longrightarrow> la = 0) \<and>
          (deps_of g a \<noteq> [] \<longrightarrow>
             (\<forall>d\<in>set (deps_of g a). ((map_of levels)(f \<mapsto> l)) d \<noteq> None) \<and>
             la = Max ((\<lambda>d. the (((map_of levels)(f \<mapsto> l)) d)) ` set (deps_of g a)) + 1)"
    proof (cases "a = f")
      case True
      with a have "la = l" by simp
      with True leaf inner same [of "deps_of g f"] show ?thesis by auto
    next
      case False
      with a have old: "map_of levels a = Some la" by simp
      with rule have r: "(deps_of g a = [] \<longrightarrow> la = 0) \<and>
          (deps_of g a \<noteq> [] \<longrightarrow>
             (\<forall>d\<in>set (deps_of g a). map_of levels d \<noteq> None) \<and>
             la = Max ((\<lambda>d. the (map_of levels d)) ` set (deps_of g a)) + 1)"
        unfolding follows_level_rule_def by blast
      show ?thesis
      proof (cases "deps_of g a = []")
        case True
        with r show ?thesis by simp
      next
        case nonempty: False
        with r have all: "\<forall>d\<in>set (deps_of g a). map_of levels d \<noteq> None"
          and la: "la = Max ((\<lambda>d. the (map_of levels d)) ` set (deps_of g a)) + 1"
          by simp_all
        from all have "\<forall>d\<in>set (deps_of g a). ((map_of levels)(f \<mapsto> l)) d \<noteq> None" by simp
        with nonempty la same [OF all] show ?thesis by simp
      qed
    qed
  qed
qed

text \<open>Extending the dictionary without changing a level keeps the rule.\<close>

lemma in_dep_edges: "d \<in> set (deps_of g f) \<Longrightarrow> (f, d) \<in> dep_edges g"
  by (simp add: dep_edges_def)

text \<open>
  Without cycles no call meets a file that is being visited, and every call keeps
  the rule of level assignment.
\<close>

lemma get_level_acyclic:
  "get_level g f vis levels = (l, levels') \<Longrightarrow> acyclic (dep_edges g) \<Longrightarrow>
     follows_level_rule g levels \<Longrightarrow> (\<forall>v \<in> vis. (v, f) \<in> (dep_edges g)\<^sup>+) \<Longrightarrow>
     follows_level_rule g levels' \<and> map_of levels' f = Some l"
  "get_levels g ds vis levels = (ls, levels') \<Longrightarrow> acyclic (dep_edges g) \<Longrightarrow>
     follows_level_rule g levels \<Longrightarrow> (\<forall>v \<in> vis. \<forall>d \<in> set ds. (v, d) \<in> (dep_edges g)\<^sup>+) \<Longrightarrow>
     follows_level_rule g levels' \<and> (\<forall>d \<in> set ds. map_of levels' d \<noteq> None) \<and>
     ls = map (\<lambda>d. the (map_of levels' d)) ds"
proof (induction g f vis levels and g ds vis levels arbitrary: l levels' and ls levels'
    rule: get_level_get_levels.induct)
  case (1 g f vis levels)
  note unf = get_level.simps(1) [of g f vis levels]
  note run = "1.prems"(1) and acyc = "1.prems"(2) and rule = "1.prems"(3) and path = "1.prems"(4)
  have not_visiting: "f \<notin> vis"
  proof
    assume "f \<in> vis"
    with path have "(f, f) \<in> (dep_edges g)\<^sup>+" by blast
    with acyc show False by (simp add: acyclic_def)
  qed
  show ?case
  proof (cases "map_of levels f")
    case (Some l0)
    with run rule show ?thesis by (simp add: unf)
  next
    case None
    show ?thesis
    proof (cases "deps_of g f")
      case Nil
      with None not_visiting run have res: "levels' = dict_set levels f 0" "l = 0"
        by (simp_all add: unf)
      have "follows_level_rule g (dict_set levels f 0)"
        using rule None Nil by (intro follows_level_rule_dict_set) simp_all
      then show ?thesis by (simp add: res map_of_dict_set)
    next
      case (Cons dep deps)
      obtain ls levels1 where rec: "get_levels g (dep # deps) (insert f vis) levels = (ls, levels1)"
        by (cases "get_levels g (dep # deps) (insert f vis) levels")
      have path': "\<forall>v \<in> insert f vis. \<forall>d \<in> set (dep # deps). (v, d) \<in> (dep_edges g)\<^sup>+"
      proof (intro ballI)
        fix v d assume v: "v \<in> insert f vis" and d: "d \<in> set (dep # deps)"
        from d Cons have e: "(f, d) \<in> dep_edges g" by (simp add: in_dep_edges)
        show "(v, d) \<in> (dep_edges g)\<^sup>+"
        proof (cases "v = f")
          case True
          with e show ?thesis by blast
        next
          case False
          with v path have "(v, f) \<in> (dep_edges g)\<^sup>+" by blast
          then show ?thesis using e by (rule trancl_into_trancl)
        qed
      qed
      note IH = "1.IH" [OF None not_visiting Cons rec acyc rule path']
      have rule1: "follows_level_rule g levels1" by (rule IH [THEN conjunct1])
      have all1: "\<forall>d \<in> set (dep # deps). map_of levels1 d \<noteq> None"
        by (rule IH [THEN conjunct2, THEN conjunct1])
      have ls: "ls = map (\<lambda>d. the (map_of levels1 d)) (dep # deps)"
        by (rule IH [THEN conjunct2, THEN conjunct2])
      from get_level_general(2) [OF rec] None
      have new: "map_of levels1 f = None" by simp
      from None not_visiting Cons rec run
      have res: "levels' = dict_set levels1 f l" and l: "l = fold max (tl ls) (hd ls) + 1"
        by (auto simp: unf Let_def)
      have "ls \<noteq> []" using ls by simp
      then have "fold max (tl ls) (hd ls) = Max (set ls)" by (rule fold_max_is_Max)
      also have "set ls = (\<lambda>d. the (map_of levels1 d)) ` set (dep # deps)"
        unfolding ls by simp
      finally have l': "l = Max ((\<lambda>d. the (map_of levels1 d)) ` set (deps_of g f)) + 1"
        using l Cons by simp
      have "follows_level_rule g (dict_set levels1 f l)"
        using rule1 new all1 l' Cons by (intro follows_level_rule_dict_set) simp_all
      then show ?thesis by (simp add: res map_of_dict_set)
    qed
  qed
next
  case (2 g vis levels)
  then show ?case by (simp add: get_levels.simps)
next
  case (3 g dep deps vis levels)
  note run = "3.prems"(1) and acyc = "3.prems"(2) and rule = "3.prems"(3) and path = "3.prems"(4)
  obtain l1 levels1 where a: "get_level g dep vis levels = (l1, levels1)"
    by (cases "get_level g dep vis levels")
  obtain ls2 levels2 where b: "get_levels g deps vis levels1 = (ls2, levels2)"
    by (cases "get_levels g deps vis levels1")
  from run a b have res: "levels' = levels2" "ls = l1 # ls2" by (simp_all add: get_levels.simps)
  from path have pa: "\<forall>v \<in> vis. (v, dep) \<in> (dep_edges g)\<^sup>+"
    and pb: "\<forall>v \<in> vis. \<forall>d \<in> set deps. (v, d) \<in> (dep_edges g)\<^sup>+" by simp_all
  note A = "3.IH"(1) [OF a acyc rule pa]
  have rule1: "follows_level_rule g levels1" by (rule A [THEN conjunct1])
  have dep1: "map_of levels1 dep = Some l1" by (rule A [THEN conjunct2])
  note B = "3.IH"(2) [OF a [symmetric] b acyc rule1 pb]
  have rule2: "follows_level_rule g levels2" by (rule B [THEN conjunct1])
  have all2: "\<forall>d \<in> set deps. map_of levels2 d \<noteq> None" by (rule B [THEN conjunct2, THEN conjunct1])
  have ls2: "ls2 = map (\<lambda>d. the (map_of levels2 d)) deps" by (rule B [THEN conjunct2, THEN conjunct2])
  from get_level_general(2) [OF b] dep1 have dep2: "map_of levels2 dep = Some l1" by blast
  show ?case
    unfolding res using rule2 all2 ls2 dep2 by simp
qed

lemma levels_loop_acyclic:
  "acyclic (dep_edges g) \<Longrightarrow> follows_level_rule g levels \<Longrightarrow>
   follows_level_rule g (levels_loop g fs levels) \<and>
   (\<forall>f \<in> set fs. map_of (levels_loop g fs levels) f \<noteq> None) \<and>
   (\<forall>x y. map_of levels x = Some y \<longrightarrow> map_of (levels_loop g fs levels) x = Some y)"
proof (induction fs arbitrary: levels)
  case Nil
  then show ?case by simp
next
  case (Cons f fs)
  obtain l levels1 where a: "get_level g f {} levels = (l, levels1)"
    by (cases "get_level g f {} levels")
  from get_level_acyclic(1) [OF a Cons.prems(1) Cons.prems(2)]
  have rule1: "follows_level_rule g levels1" and f1: "map_of levels1 f = Some l" by simp_all
  from get_level_general(1) [OF a]
  have ext1: "\<forall>x y. map_of levels x = Some y \<longrightarrow> map_of levels1 x = Some y" by blast
  note IH = Cons.IH [OF Cons.prems(1) rule1]
  have loop: "levels_loop g (f # fs) levels = levels_loop g fs levels1" using a by simp
  show ?case
    unfolding loop using IH f1 ext1 by auto
qed

lemma level_rule_gives_order:
  assumes "follows_level_rule g levels" and "map_of levels f = Some lf"
    and "d \<in> set (deps_of g f)"
  shows "\<exists>ld. map_of levels d = Some ld \<and> ld < lf"
proof -
  from assms(3) have ne: "deps_of g f \<noteq> []" by auto
  with assms(1,2) have all: "\<forall>d \<in> set (deps_of g f). map_of levels d \<noteq> None"
    and lf: "lf = Max ((\<lambda>d. the (map_of levels d)) ` set (deps_of g f)) + 1"
    unfolding follows_level_rule_def by blast+
  from all assms(3) obtain ld where ld: "map_of levels d = Some ld" by auto
  have "the (map_of levels d) \<le> Max ((\<lambda>d. the (map_of levels d)) ` set (deps_of g f))"
    using assms(3) by (intro Max_ge) auto
  with ld lf have "ld < lf" by simp
  with ld show ?thesis by blast
qed

lemma empty_follows_level_rule: "follows_level_rule g []"
  by (simp add: follows_level_rule_def)

lemma abc_levels:
  "get_dependency_levels
     \<lparr>file_imports = [(''A'', [''B'']), (''B'', [''C'']), (''C'', [])],
      dependency_graph = [(''A'', [''B'']), (''B'', [''C''])]\<rparr> =
   [(''C'', 0), (''B'', 1), (''A'', 2)]"
  by (simp add: get_dependency_levels_def get_level.simps get_levels.simps deps_of_def)

lemma abc_groups:
  "processing_groups [(''C'', 0), (''B'', 1), (''A'', 2)] [''A'', ''B'', ''C''] =
     [[''C''], [''B''], [''A'']]"
  by (simp add: processing_groups_def group_by_level_def)

lemma abc_acyclic: "acyclic (dep_edges [(''A'', [''B'']), (''B'', [''C''])])"
proof -
  define rank :: "string \<Rightarrow> nat" where
    "rank = (\<lambda>f. if f = ''A'' then 2 else if f = ''B'' then 1 else 0)"
  have "(dep_edges [(''A'', [''B'']), (''B'', [''C''])])\<inverse> \<subseteq> measure rank"
    by (auto simp: dep_edges_def deps_of_def rank_def split: if_splits)
  then have "wf ((dep_edges [(''A'', [''B'']), (''B'', [''C''])])\<inverse>)"
    by (rule wf_subset [OF wf_measure])
  then have "acyclic ((dep_edges [(''A'', [''B'']), (''B'', [''C''])])\<inverse>)"
    by (rule wf_acyclic)
  then show ?thesis by (simp only: acyclic_converse)
qed

text \<open>
  C1. For a dependency graph without cycles, the dictionary that
  \<^const>\<open>get_dependency_levels\<close> returns gives a level to every file of
  \<^verbatim>\<open>file_imports\<close>; a file with a level and no dependencies has level 0; and for
  every edge from a file with a level to a dependency, the dependency has a level
  too, and a smaller one. For the files A, B, C with A depending on B and B on C
  the levels are C = 0, B = 1, A = 2, and the groups are taken in the order
  [C], [B], [A].
\<close>

theorem acyclic_levels_respect_dependencies:
  assumes "acyclic (dep_edges (dependency_graph a))"
  shows "(\<forall>f \<in> set (map fst (file_imports a)). map_of (get_dependency_levels a) f \<noteq> None) \<and>
         (\<forall>f lf. map_of (get_dependency_levels a) f = Some lf \<longrightarrow>
            (deps_of (dependency_graph a) f = [] \<longrightarrow> lf = 0) \<and>
            (\<forall>d \<in> set (deps_of (dependency_graph a) f).
               \<exists>ld. map_of (get_dependency_levels a) d = Some ld \<and> ld < lf)) \<and>
         get_dependency_levels
           \<lparr>file_imports = [(''A'', [''B'']), (''B'', [''C'']), (''C'', [])],
            dependency_graph = [(''A'', [''B'']), (''B'', [''C''])]\<rparr> =
           [(''C'', 0), (''B'', 1), (''A'', 2)] \<and>
         processing_groups
           (get_dependency_levels
              \<lparr>file_imports = [(''A'', [''B'']), (''B'', [''C'']), (''C'', [])],
               dependency_graph = [(''A'', [''B'']), (''B'', [''C''])]\<rparr>)
           [''A'', ''B'', ''C''] =
           [[''C''], [''B''], [''A'']]"
proof -
  define g where "g = dependency_graph a"
  define levels where "levels = get_dependency_levels a"
  have loop: "levels = levels_loop g (map fst (file_imports a)) []"
    by (simp add: levels_def g_def get_dependency_levels_def)
  from levels_loop_acyclic [OF assms [folded g_def] empty_follows_level_rule,
      of "map fst (file_imports a)"]
  have rule: "follows_level_rule g levels"
    and all: "\<forall>f \<in> set (map fst (file_imports a)). map_of levels f \<noteq> None"
    unfolding loop by blast+
  have zero: "lf = 0" if "map_of levels f = Some lf" "deps_of g f = []" for f lf
    using rule that unfolding follows_level_rule_def by blast
  have order: "\<exists>ld. map_of levels d = Some ld \<and> ld < lf"
    if "map_of levels f = Some lf" "d \<in> set (deps_of g f)" for f lf d
    using rule that by (rule level_rule_gives_order)
  have general: "(\<forall>f lf. map_of levels f = Some lf \<longrightarrow>
            (deps_of g f = [] \<longrightarrow> lf = 0) \<and>
            (\<forall>d \<in> set (deps_of g f). \<exists>ld. map_of levels d = Some ld \<and> ld < lf))"
    using zero order by blast
  show ?thesis
    using all general unfolding levels_def g_def
    by (simp only: abc_levels abc_groups simp_thms)
qed

theorem acyclic_levels_respect_dependencies_witness:
  "acyclic (dep_edges [(''A'', [''B'']), (''B'', [''C''])]) \<and>
   (\<exists>la lb lc.
      map_of (get_dependency_levels
                \<lparr>file_imports = [(''A'', [''B'']), (''B'', [''C'']), (''C'', [])],
                 dependency_graph = [(''A'', [''B'']), (''B'', [''C''])]\<rparr>) ''A'' = Some la \<and>
      map_of (get_dependency_levels
                \<lparr>file_imports = [(''A'', [''B'']), (''B'', [''C'']), (''C'', [])],
                 dependency_graph = [(''A'', [''B'']), (''B'', [''C''])]\<rparr>) ''B'' = Some lb \<and>
      map_of (get_dependency_levels
                \<lparr>file_imports = [(''A'', [''B'']), (''B'', [''C'']), (''C'', [])],
                 dependency_graph = [(''A'', [''B'']), (''B'', [''C''])]\<rparr>) ''C'' = Some lc \<and>
      lc = 0 \<and> lc < lb \<and> lb < la)"
proof -
  define a where "a = \<lparr>file_imports = [(''A'', [''B'']), (''B'', [''C'']), (''C'', [])],
                 dependency_graph = [(''A'', [''B'']), (''B'', [''C''])]\<rparr>"
  have acyc: "acyclic (dep_edges (dependency_graph a))"
    by (simp add: a_def abc_acyclic)
  note main = acyclic_levels_respect_dependencies [OF acyc]
  from main have has: "\<forall>f \<in> set (map fst (file_imports a)). map_of (get_dependency_levels a) f \<noteq> None"
    by (rule conjunct1)
  from main have rule: "\<forall>f lf. map_of (get_dependency_levels a) f = Some lf \<longrightarrow>
            (deps_of (dependency_graph a) f = [] \<longrightarrow> lf = 0) \<and>
            (\<forall>d \<in> set (deps_of (dependency_graph a) f).
               \<exists>ld. map_of (get_dependency_levels a) d = Some ld \<and> ld < lf)"
    by (rule conjunct2 [THEN conjunct1])
  from has obtain la where la: "map_of (get_dependency_levels a) ''A'' = Some la"
    by (auto simp: a_def)
  have dA: "deps_of (dependency_graph a) ''A'' = [''B'']"
    and dB: "deps_of (dependency_graph a) ''B'' = [''C'']"
    and dC: "deps_of (dependency_graph a) ''C'' = []"
    by (simp_all add: a_def deps_of_def)
  from rule la dA obtain lb where lb: "map_of (get_dependency_levels a) ''B'' = Some lb" "lb < la"
    by fastforce
  from rule lb(1) dB obtain lc where lc: "map_of (get_dependency_levels a) ''C'' = Some lc" "lc < lb"
    by fastforce
  from rule lc(1) dC have "lc = 0" by blast
  with la lb lc abc_acyclic show ?thesis
    unfolding a_def by blast
qed


subsection \<open>Cycles\<close>

lemma detect_cycles_examples:
  "detect_cycles [(''A'', [''B'']), (''B'', [''A''])] = Inr [[''A'', ''B'', ''A'']]"
  "detect_cycles [(''A'', [''B'', ''C'']), (''B'', [''A''])] =
     Inl (RuntimeError ''dictionary changed size during iteration'')"
  "detect_cycles [(''A'', [''B'', ''C'']), (''B'', [''A'']), (''C'', [])] = Inr [[''A'', ''B'', ''A'']]"
  by (simp_all add: detect_cycles_def dfs.simps dfs_neighbors.simps deps_of_def touch_key_def)

lemma touch_key_fields:
  "rec_stack (touch_key st node) = rec_stack st"
  "cycles (touch_key st node) = cycles st"
  by (simp_all add: touch_key_def)

lemma closed_under_rtrancl:
  assumes "(u, v) \<in> r\<^sup>*" and "u \<in> S" and "\<forall>x \<in> S. \<forall>y. (x, y) \<in> r \<longrightarrow> y \<in> S"
  shows "v \<in> S"
  using assms by (induction rule: rtrancl_induct) auto

text \<open>
  What a completed call does to the state: the recursion stack is as before, the
  set of visited files has grown, reported cycles stay, and without a report the
  invariant holds again, with the file of the call (or the neighbours of the loop)
  finished.
\<close>

lemma dfs_keeps_invariant:
  "dfs g node path st = Inr st' \<Longrightarrow> node \<notin> visited st \<Longrightarrow> search_invariant g st \<Longrightarrow>
     search_invariant g st' \<and> rec_stack st' = rec_stack st \<and>
     insert node (visited st) \<subseteq> visited st' \<and> (cycles st' = [] \<longrightarrow> cycles st = [])"
  "dfs_neighbors g path ns st = Inr st' \<Longrightarrow> search_invariant g st \<Longrightarrow>
     search_invariant g st' \<and> rec_stack st' = rec_stack st \<and>
     visited st \<subseteq> visited st' \<and> (cycles st' = [] \<longrightarrow> cycles st = [] \<and> set ns \<subseteq> finished st')"
proof (induction g node path st and g path ns st arbitrary: st' and st'
    rule: dfs_dfs_neighbors.induct)
  case (1 g node path st)
  define st0 where "st0 = touch_key (st\<lparr>visited := insert node (visited st),
                             rec_stack := insert node (rec_stack st)\<rparr>) node"
  from "1.prems"(1) obtain st1 where
    run: "dfs_neighbors g (path @ [node]) (deps_of g node) st0 = Inr st1"
    and res: "st' = st1\<lparr>rec_stack := rec_stack st1 - {node}\<rparr>"
    by (auto simp: dfs.simps [of g node path st] st0_def split: sum.splits)
  note fresh = "1.prems"(2) and inv = "1.prems"(3)
  have v0: "visited st0 = insert node (visited st)" and r0: "rec_stack st0 = insert node (rec_stack st)"
    and c0: "cycles st0 = cycles st"
    by (simp_all add: st0_def touch_key_visited touch_key_fields)
  from inv have sub: "rec_stack st \<subseteq> visited st" by (simp add: search_invariant_def)
  with fresh have notrec: "node \<notin> rec_stack st" by auto
  have f0: "finished st0 = finished st"
    using fresh notrec by (auto simp: finished_def v0 r0)
  have inv0: "search_invariant g st0"
    using inv sub unfolding search_invariant_def f0 c0 v0 r0 by auto
  from "1.IH" [OF run [unfolded st0_def] inv0 [unfolded st0_def], folded st0_def]
  have inv1: "search_invariant g st1" and r1: "rec_stack st1 = rec_stack st0"
    and v1: "visited st0 \<subseteq> visited st1"
    and c1: "cycles st1 = [] \<longrightarrow> cycles st0 = [] \<and> set (deps_of g node) \<subseteq> finished st1"
    by blast+
  have rec': "rec_stack st' = rec_stack st" using res r1 r0 notrec by auto
  have vis': "visited st' = visited st1" and cyc': "cycles st' = cycles st1" using res by simp_all
  have node_in: "node \<in> visited st1" using v1 v0 by auto
  have fin': "finished st' = insert node (finished st1)"
    using node_in r1 r0 rec' notrec unfolding finished_def vis' by auto
  have node_not_fin: "node \<notin> finished st1" using r1 r0 by (simp add: finished_def)
  have inv': "search_invariant g st'"
    unfolding search_invariant_def
  proof (intro conjI impI)
    show "rec_stack st' \<subseteq> visited st'" using rec' vis' sub v0 v1 by auto
  next
    assume "cycles st' = []"
    then have e1: "cycles st1 = []" by (simp add: cyc')
    with c1 have deps_fin: "set (deps_of g node) \<subseteq> finished st1" by simp
    from inv1 e1 have closed1: "\<forall>u \<in> finished st1. \<forall>v. (u, v) \<in> dep_edges g \<longrightarrow> v \<in> finished st1"
      and acyc1: "\<forall>u \<in> finished st1. (u, u) \<notin> (dep_edges g)\<^sup>+"
      by (simp_all add: search_invariant_def)
    show "\<forall>u \<in> finished st'. \<forall>v. (u, v) \<in> dep_edges g \<longrightarrow> v \<in> finished st'"
      unfolding fin' using closed1 deps_fin by (auto simp: dep_edges_def)
    show "\<forall>u \<in> finished st'. (u, u) \<notin> (dep_edges g)\<^sup>+"
    proof
      fix u assume "u \<in> finished st'"
      then consider "u = node" | "u \<in> finished st1" unfolding fin' by auto
      then show "(u, u) \<notin> (dep_edges g)\<^sup>+"
      proof cases
        case 1
        show ?thesis
        proof
          assume "(u, u) \<in> (dep_edges g)\<^sup>+"
          then obtain v where e: "(node, v) \<in> dep_edges g" and returns: "(v, node) \<in> (dep_edges g)\<^sup>*"
            using 1 by (auto dest: tranclD)
          from e deps_fin have vfin: "v \<in> finished st1" by (auto simp: dep_edges_def)
          from returns vfin closed1 have "node \<in> finished st1" by (rule closed_under_rtrancl)
          with node_not_fin show False by simp
        qed
      next
        case 2
        with acyc1 show ?thesis by simp
      qed
    qed
  qed
  show ?case
    using inv' rec' vis' v1 v0 cyc' c1 c0 by auto
next
  case (2 g path st)
  then show ?case by (simp add: dfs_neighbors.simps)
next
  case (3 g path neighbor rest st)
  note run = "3.prems"(1) and inv = "3.prems"(2)
  note unf = dfs_neighbors.simps(2) [of g path neighbor rest st]
  show ?case
  proof (cases "neighbor \<notin> visited st")
    case True
    with run obtain st1 where
      a: "dfs g neighbor path st = Inr st1" and b: "dfs_neighbors g path rest st1 = Inr st'"
      by (auto simp: unf split: sum.splits)
    from "3.IH"(1) [OF True a True inv]
    have inv1: "search_invariant g st1" and r1: "rec_stack st1 = rec_stack st"
      and v1: "insert neighbor (visited st) \<subseteq> visited st1"
      and c1: "cycles st1 = [] \<longrightarrow> cycles st = []"
      by blast+
    from "3.IH"(2) [OF True a b inv1]
    have inv': "search_invariant g st'" and r': "rec_stack st' = rec_stack st1"
      and v': "visited st1 \<subseteq> visited st'"
      and c': "cycles st' = [] \<longrightarrow> cycles st1 = [] \<and> set rest \<subseteq> finished st'"
      by blast+
    from inv have "rec_stack st \<subseteq> visited st" by (simp add: search_invariant_def)
    with True have "neighbor \<notin> rec_stack st" by auto
    with v1 v' r1 r' have "neighbor \<in> finished st'" by (auto simp: finished_def)
    with inv' r' r1 v' v1 c' c1 show ?thesis by auto
  next
    case False
    show ?thesis
    proof (cases "neighbor \<in> rec_stack st")
      case True
      define st2 where
        "st2 = st\<lparr>cycles := cycles st @ [dropWhile (\<lambda>x. x \<noteq> neighbor) path @ [neighbor]]\<rparr>"
      from False True run have onpath: "neighbor \<in> set path"
        and b: "dfs_neighbors g path rest st2 = Inr st'"
        by (auto simp: unf st2_def split: if_splits)
      have inv2: "search_invariant g st2"
        using inv by (simp add: search_invariant_def st2_def)
      from "3.IH"(3) [OF _ True onpath b [unfolded st2_def] inv2 [unfolded st2_def]] False
      have inv': "search_invariant g st'" and r': "rec_stack st' = rec_stack st2"
        and v': "visited st2 \<subseteq> visited st'"
        and c': "cycles st' = [] \<longrightarrow> cycles st2 = []"
        by (simp_all add: st2_def)
      have "cycles st2 \<noteq> []" by (simp add: st2_def)
      with c' have "cycles st' \<noteq> []" by blast
      with inv' r' v' show ?thesis by (simp add: st2_def)
    next
      case notstack: False
      from False notstack run have b: "dfs_neighbors g path rest st = Inr st'"
        by (auto simp: unf)
      from "3.IH"(4) [OF _ notstack b inv] False
      have inv': "search_invariant g st'" and r': "rec_stack st' = rec_stack st"
        and v': "visited st \<subseteq> visited st'"
        and c': "cycles st' = [] \<longrightarrow> cycles st = [] \<and> set rest \<subseteq> finished st'"
        by simp_all
      from False notstack v' r' have "neighbor \<in> finished st'" by (auto simp: finished_def)
      with inv' r' v' c' show ?thesis by auto
    qed
  qed
qed

lemma detect_loop_keeps_invariant:
  "detect_loop g size0 ks st = Inr st' \<Longrightarrow> search_invariant g st \<Longrightarrow> rec_stack st = {} \<Longrightarrow>
     search_invariant g st' \<and> rec_stack st' = {} \<and> visited st \<union> set ks \<subseteq> visited st' \<and>
     (cycles st' = [] \<longrightarrow> cycles st = [])"
proof (induction ks arbitrary: st)
  case Nil
  then show ?case by (simp split: if_splits)
next
  case (Cons k ks)
  note run = Cons.prems(1) and inv = Cons.prems(2) and empty = Cons.prems(3)
  from run have size: "length (graph_keys st) = size0" by (simp split: if_splits)
  show ?case
  proof (cases "k \<notin> visited st")
    case True
    with run size obtain st1 where a: "dfs g k [] st = Inr st1"
      and b: "detect_loop g size0 ks st1 = Inr st'"
      by (auto split: sum.splits)
    from dfs_keeps_invariant(1) [OF a True inv]
    have inv1: "search_invariant g st1" and r1: "rec_stack st1 = rec_stack st"
      and v1: "insert k (visited st) \<subseteq> visited st1"
      and c1: "cycles st1 = [] \<longrightarrow> cycles st = []"
      by blast+
    from Cons.IH [OF b inv1] r1 empty
    have "search_invariant g st' \<and> rec_stack st' = {} \<and> visited st1 \<union> set ks \<subseteq> visited st' \<and>
          (cycles st' = [] \<longrightarrow> cycles st1 = [])"
      by simp
    with v1 c1 show ?thesis by auto
  next
    case False
    with run size have b: "detect_loop g size0 ks st = Inr st'" by simp
    from Cons.IH [OF b inv empty] False show ?thesis by auto
  qed
qed

lemma deps_of_entry:
  assumes "v \<in> set (deps_of g x)"
  shows "\<exists>ds. (x, ds) \<in> set g \<and> v \<in> set ds"
proof (cases "map_of g x")
  case None
  with assms show ?thesis by (simp add: deps_of_def)
next
  case (Some ds)
  then have "(x, ds) \<in> set g" by (rule map_of_SomeD)
  with assms Some show ?thesis by (auto simp: deps_of_def)
qed

lemma edge_source_is_key: "(x, v) \<in> dep_edges g \<Longrightarrow> x \<in> set (map fst g)"
  using deps_of_entry [of v g x] by (force simp: dep_edges_def)

lemma detect_cycles_reports:
  assumes cyclic: "\<not> acyclic (dep_edges g)" and run: "detect_cycles g = Inr cs"
  shows "cs \<noteq> []"
proof
  assume none: "cs = []"
  define st0 where "st0 = \<lparr>visited = {}, rec_stack = {}, cycles = [], graph_keys = map fst g\<rparr>"
  from run obtain st' where loop: "detect_loop g (length g) (map fst g) st0 = Inr st'"
    and cs: "cs = cycles st'"
    by (auto simp: detect_cycles_def st0_def split: sum.splits)
  have inv0: "search_invariant g st0" and r0: "rec_stack st0 = {}"
    by (simp_all add: search_invariant_def st0_def finished_def)
  from detect_loop_keeps_invariant [OF loop inv0 r0]
  have inv': "search_invariant g st'" and r': "rec_stack st' = {}"
    and v': "set (map fst g) \<subseteq> visited st'"
    by auto
  from inv' none cs have acyc: "\<forall>u \<in> finished st'. (u, u) \<notin> (dep_edges g)\<^sup>+"
    by (simp add: search_invariant_def)
  from cyclic obtain x where x: "(x, x) \<in> (dep_edges g)\<^sup>+"
    by (auto simp: acyclic_def)
  then obtain v where "(x, v) \<in> dep_edges g" by (auto dest: tranclD)
  then have "x \<in> set (map fst g)" by (rule edge_source_is_key)
  with v' r' have "x \<in> finished st'" by (auto simp: finished_def)
  with acyc x show False by blast
qed

text \<open>
  When every file of the graph has an entry, no lookup inserts a key and every
  file on the recursion stack is on the path, so the search raises nothing.
\<close>

lemma deps_in_nodes: "set (deps_of g node) \<subseteq> graph_nodes g"
proof
  fix v assume "v \<in> set (deps_of g node)"
  then obtain ds where "(node, ds) \<in> set g" "v \<in> set ds"
    using deps_of_entry by blast
  then show "v \<in> graph_nodes g" by (force simp: graph_nodes_def)
qed

lemma dfs_completes:
  "graph_nodes g \<subseteq> set (graph_keys st) \<Longrightarrow> node \<in> graph_nodes g \<Longrightarrow> rec_stack st \<subseteq> set path \<Longrightarrow>
     search_invariant g st \<Longrightarrow> node \<notin> visited st \<Longrightarrow>
     \<exists>st'. dfs g node path st = Inr st' \<and> graph_keys st' = graph_keys st"
  "graph_nodes g \<subseteq> set (graph_keys st) \<Longrightarrow> set ns \<subseteq> graph_nodes g \<Longrightarrow> rec_stack st \<subseteq> set path \<Longrightarrow>
     search_invariant g st \<Longrightarrow>
     \<exists>st'. dfs_neighbors g path ns st = Inr st' \<and> graph_keys st' = graph_keys st"
proof (induction g node path st and g path ns st rule: dfs_dfs_neighbors.induct)
  case (1 g node path st)
  define st0 where "st0 = touch_key (st\<lparr>visited := insert node (visited st),
                             rec_stack := insert node (rec_stack st)\<rparr>) node"
  note keys = "1.prems"(1) and node = "1.prems"(2) and onpath = "1.prems"(3)
    and inv = "1.prems"(4) and fresh = "1.prems"(5)
  from keys node have k0: "graph_keys st0 = graph_keys st"
    by (auto simp: st0_def touch_key_def)
  have v0: "visited st0 = insert node (visited st)" and r0: "rec_stack st0 = insert node (rec_stack st)"
    and c0: "cycles st0 = cycles st"
    by (simp_all add: st0_def touch_key_visited touch_key_fields)
  from inv have sub: "rec_stack st \<subseteq> visited st" by (simp add: search_invariant_def)
  with fresh have notrec: "node \<notin> rec_stack st" by auto
  have f0: "finished st0 = finished st"
    using fresh notrec by (auto simp: finished_def v0 r0)
  have inv0: "search_invariant g st0"
    using inv sub unfolding search_invariant_def f0 c0 v0 r0 by auto
  have p0: "rec_stack st0 \<subseteq> set (path @ [node])" using onpath r0 by auto
  from "1.IH" [folded st0_def, OF _ deps_in_nodes p0 inv0] keys k0
  obtain st1 where run: "dfs_neighbors g (path @ [node]) (deps_of g node) st0 = Inr st1"
    and k1: "graph_keys st1 = graph_keys st0"
    by auto
  from run have "dfs g node path st = Inr (st1\<lparr>rec_stack := rec_stack st1 - {node}\<rparr>)"
    by (simp add: dfs.simps [of g node path st] st0_def)
  with k1 k0 show ?case by simp
next
  case (2 g path st)
  show ?case by (simp add: dfs_neighbors.simps)
next
  case (3 g path neighbor rest st)
  note keys = "3.prems"(1) and ns = "3.prems"(2) and onpath = "3.prems"(3) and inv = "3.prems"(4)
  note unf = dfs_neighbors.simps(2) [of g path neighbor rest st]
  from ns have n: "neighbor \<in> graph_nodes g" and rest: "set rest \<subseteq> graph_nodes g" by simp_all
  show ?case
  proof (cases "neighbor \<notin> visited st")
    case True
    from "3.IH"(1) [OF True keys n onpath inv True]
    obtain st1 where a: "dfs g neighbor path st = Inr st1" and k1: "graph_keys st1 = graph_keys st"
      by auto
    from dfs_keeps_invariant(1) [OF a True inv]
    have inv1: "search_invariant g st1" and r1: "rec_stack st1 = rec_stack st" by blast+
    from "3.IH"(2) [OF True a _ rest _ inv1] keys k1 onpath r1
    obtain st' where b: "dfs_neighbors g path rest st1 = Inr st'"
      and k': "graph_keys st' = graph_keys st1"
      by auto
    from True a b have "dfs_neighbors g path (neighbor # rest) st = Inr st'" by (simp add: unf)
    with k' k1 show ?thesis by simp
  next
    case False
    show ?thesis
    proof (cases "neighbor \<in> rec_stack st")
      case True
      with onpath have onp: "neighbor \<in> set path" by auto
      have inv2: "search_invariant g
          (st\<lparr>cycles := cycles st @ [dropWhile (\<lambda>x. x \<noteq> neighbor) path @ [neighbor]]\<rparr>)"
        using inv by (simp add: search_invariant_def)
      from "3.IH"(3) [OF _ True onp _ rest _ inv2] False keys onpath
      obtain st' where b: "dfs_neighbors g path rest
          (st\<lparr>cycles := cycles st @ [dropWhile (\<lambda>x. x \<noteq> neighbor) path @ [neighbor]]\<rparr>) = Inr st'"
        and k': "graph_keys st' = graph_keys st"
        by auto
      from False True onp b have "dfs_neighbors g path (neighbor # rest) st = Inr st'"
        by (simp add: unf)
      with k' show ?thesis by simp
    next
      case notstack: False
      from "3.IH"(4) [OF _ notstack keys rest onpath inv] False
      obtain st' where b: "dfs_neighbors g path rest st = Inr st'"
        and k': "graph_keys st' = graph_keys st"
        by auto
      from False notstack b have "dfs_neighbors g path (neighbor # rest) st = Inr st'"
        by (simp add: unf)
      with k' show ?thesis by simp
    qed
  qed
qed

lemma detect_loop_completes:
  "graph_nodes g \<subseteq> set (graph_keys st) \<Longrightarrow> set ks \<subseteq> graph_nodes g \<Longrightarrow>
   length (graph_keys st) = size0 \<Longrightarrow> search_invariant g st \<Longrightarrow> rec_stack st = {} \<Longrightarrow>
   \<exists>st'. detect_loop g size0 ks st = Inr st'"
proof (induction ks arbitrary: st)
  case Nil
  then show ?case by simp
next
  case (Cons k ks)
  note keys = Cons.prems(1) and ks = Cons.prems(2) and size = Cons.prems(3)
    and inv = Cons.prems(4) and empty = Cons.prems(5)
  show ?case
  proof (cases "k \<notin> visited st")
    case True
    from ks have k: "k \<in> graph_nodes g" by simp
    from dfs_completes(1) [OF keys k _ inv True, of "[]"] empty
    obtain st1 where a: "dfs g k [] st = Inr st1" and k1: "graph_keys st1 = graph_keys st"
      by auto
    from dfs_keeps_invariant(1) [OF a True inv]
    have inv1: "search_invariant g st1" and r1: "rec_stack st1 = rec_stack st" by blast+
    from Cons.IH [of st1] keys ks size inv1 r1 empty k1
    obtain st' where "detect_loop g size0 ks st1 = Inr st'" by auto
    with True a size show ?thesis by simp
  next
    case False
    from Cons.IH [of st] keys ks size inv empty
    obtain st' where "detect_loop g size0 ks st = Inr st'" by auto
    with False size show ?thesis by simp
  qed
qed

lemma detect_cycles_completes:
  assumes "graph_nodes g \<subseteq> set (map fst g)"
  shows "\<exists>cs. detect_cycles g = Inr cs"
proof -
  define st0 where "st0 = \<lparr>visited = {}, rec_stack = {}, cycles = [], graph_keys = map fst g\<rparr>"
  have "\<exists>st'. detect_loop g (length g) (map fst g) st0 = Inr st'"
    using assms
    by (intro detect_loop_completes)
       (auto simp: st0_def search_invariant_def finished_def graph_nodes_def)
  then show ?thesis by (auto simp: detect_cycles_def st0_def)
qed

subsection \<open>Levels in the presence of cycles\<close>

lemma fold_max_ge: "(v::int) \<le> fold max xs v"
proof (induction xs arbitrary: v)
  case Nil
  show ?case by simp
next
  case (Cons x xs)
  have "v \<le> max x v" by simp
  also have "\<dots> \<le> fold max xs (max x v)" by (rule Cons)
  finally show ?case by simp
qed

lemma dict_set_values: "snd ` set (dict_set levels k v) \<subseteq> insert v (snd ` set levels)"
  by (induction levels k v rule: dict_set.induct) auto

lemma dict_set_nonnegative:
  assumes "\<forall>v \<in> snd ` set levels. (0::int) \<le> v" and "0 \<le> v0"
  shows "\<forall>v \<in> snd ` set (dict_set levels k v0). 0 \<le> v"
proof
  fix v assume "v \<in> snd ` set (dict_set levels k v0)"
  with dict_set_values [of levels k v0] have "v = v0 \<or> v \<in> snd ` set levels" by blast
  with assms show "0 \<le> v" by blast
qed

text \<open>The short cut for a file that is being visited and has no level yet.\<close>

lemma get_level_revisit:
  assumes "map_of levels f = None" and "f \<in> vis"
  shows "get_level g f vis levels =
           ((if levels = [] then 0 else Max (snd ` set levels) + 1), levels)"
proof (cases levels)
  case Nil
  from assms show ?thesis
    unfolding Nil by (simp add: get_level.simps [of g f vis "[]"])
next
  case (Cons kv rest)
  obtain k v where kv: "kv = (k, v)" by (cases kv)
  have "fold max (map snd rest) v = Max (set (v # map snd rest))"
    by (simp only: Max.set_eq_fold)
  also have "set (v # map snd rest) = snd ` set ((k, v) # rest)"
    by simp
  finally have m: "fold max (map snd rest) v = Max (snd ` set ((k, v) # rest))" .
  from assms(1) have "map_of ((k, v) # rest) f = None"
    unfolding Cons kv .
  with assms(2) have "get_level g f vis ((k, v) # rest) =
      (fold max (map snd rest) v + 1, (k, v) # rest)"
    by (simp add: get_level.simps [of g f vis "(k, v) # rest"])
  then show ?thesis
    unfolding Cons kv m by simp
qed

lemma get_level_nonnegative:
  "get_level g f vis levels = (l, levels') \<Longrightarrow> (\<forall>v \<in> snd ` set levels. 0 \<le> v) \<Longrightarrow>
     0 \<le> l \<and> (\<forall>v \<in> snd ` set levels'. 0 \<le> v)"
  "get_levels g ds vis levels = (ls, levels') \<Longrightarrow> (\<forall>v \<in> snd ` set levels. 0 \<le> v) \<Longrightarrow>
     (\<forall>x \<in> set ls. 0 \<le> x) \<and> (\<forall>v \<in> snd ` set levels'. 0 \<le> v) \<and> length ls = length ds"
proof (induction g f vis levels and g ds vis levels arbitrary: l levels' and ls levels'
    rule: get_level_get_levels.induct)
  case (1 g f vis levels)
  note unf = get_level.simps(1) [of g f vis levels]
  note run = "1.prems"(1) and pos = "1.prems"(2)
  show ?case
  proof (cases "map_of levels f")
    case (Some l0)
    then have "(f, l0) \<in> set levels" by (rule map_of_SomeD)
    then have "l0 \<in> snd ` set levels" by force
    with pos Some run show ?thesis by (auto simp: unf)
  next
    case None
    show ?thesis
    proof (cases "f \<in> vis")
      case True
      from get_level_revisit [OF None True, of g] run
      have res: "levels' = levels" and l: "l = (if levels = [] then 0 else Max (snd ` set levels) + 1)"
        by simp_all
      have "0 \<le> l"
      proof (cases "levels = []")
        case True
        with l show ?thesis by simp
      next
        case False
        then have "Max (snd ` set levels) \<in> snd ` set levels" by (intro Max_in) auto
        with pos have "0 \<le> Max (snd ` set levels)" by blast
        with l False show ?thesis by simp
      qed
      with res pos show ?thesis by simp
    next
      case False
      show ?thesis
      proof (cases "deps_of g f")
        case Nil
        with None False run have res: "levels' = dict_set levels f 0" "l = 0"
          by (simp_all add: unf)
        with dict_set_nonnegative [OF pos, of 0 f] show ?thesis by simp
      next
        case (Cons dep deps)
        obtain ls levels1 where rec: "get_levels g (dep # deps) (insert f vis) levels = (ls, levels1)"
          by (cases "get_levels g (dep # deps) (insert f vis) levels")
        note IH = "1.IH" [OF None False Cons rec pos]
        have ls_pos: "\<forall>x \<in> set ls. 0 \<le> x" by (rule IH [THEN conjunct1])
        have pos1: "\<forall>v \<in> snd ` set levels1. 0 \<le> v" by (rule IH [THEN conjunct2, THEN conjunct1])
        have len: "length ls = length (dep # deps)" by (rule IH [THEN conjunct2, THEN conjunct2])
        from None False Cons rec run
        have res: "levels' = dict_set levels1 f l" and l: "l = fold max (tl ls) (hd ls) + 1"
          by (auto simp: unf Let_def)
        from len have "ls \<noteq> []" by auto
        with ls_pos have "0 \<le> hd ls" by simp
        also have "hd ls \<le> fold max (tl ls) (hd ls)" by (rule fold_max_ge)
        finally have "0 \<le> l" using l by simp
        with res dict_set_nonnegative [OF pos1, of l f] show ?thesis by simp
      qed
    qed
  qed
next
  case (2 g vis levels)
  then show ?case by (simp add: get_levels.simps)
next
  case (3 g dep deps vis levels)
  note run = "3.prems"(1) and pos = "3.prems"(2)
  obtain l1 levels1 where a: "get_level g dep vis levels = (l1, levels1)"
    by (cases "get_level g dep vis levels")
  obtain ls2 levels2 where b: "get_levels g deps vis levels1 = (ls2, levels2)"
    by (cases "get_levels g deps vis levels1")
  from run a b have res: "levels' = levels2" "ls = l1 # ls2" by (simp_all add: get_levels.simps)
  note A = "3.IH"(1) [OF a pos]
  have l1: "0 \<le> l1" by (rule A [THEN conjunct1])
  have pos1: "\<forall>v \<in> snd ` set levels1. 0 \<le> v" by (rule A [THEN conjunct2])
  note B = "3.IH"(2) [OF a [symmetric] b pos1]
  show ?case unfolding res using l1 B by simp
qed

lemma levels_loop_general:
  "(\<forall>v \<in> snd ` set levels. 0 \<le> v) \<Longrightarrow>
   (\<forall>v \<in> snd ` set (levels_loop g fs levels). 0 \<le> v) \<and>
   (\<forall>f \<in> set fs. map_of (levels_loop g fs levels) f \<noteq> None) \<and>
   (\<forall>x y. map_of levels x = Some y \<longrightarrow> map_of (levels_loop g fs levels) x = Some y)"
proof (induction fs arbitrary: levels)
  case Nil
  then show ?case by simp
next
  case (Cons f fs)
  obtain l levels1 where a: "get_level g f {} levels = (l, levels1)"
    by (cases "get_level g f {} levels")
  from get_level_nonnegative(1) [OF a Cons.prems]
  have pos1: "\<forall>v \<in> snd ` set levels1. 0 \<le> v" by simp
  from get_level_general(1) [OF a]
  have ext1: "\<forall>x y. map_of levels x = Some y \<longrightarrow> map_of levels1 x = Some y"
    and f1: "map_of levels1 f = Some l" by simp_all
  note IH = Cons.IH [OF pos1]
  have loop: "levels_loop g (f # fs) levels = levels_loop g fs levels1" using a by simp
  show ?case
    unfolding loop using IH f1 ext1 by auto
qed

lemma all_files_get_levels:
  assumes "f \<in> set (map fst (file_imports a))"
  shows "\<exists>l. map_of (get_dependency_levels a) f = Some l \<and> 0 \<le> l"
proof -
  from levels_loop_general [of "[]" "dependency_graph a" "map fst (file_imports a)"]
  have pos: "\<forall>v \<in> snd ` set (get_dependency_levels a). 0 \<le> v"
    and has: "\<forall>f \<in> set (map fst (file_imports a)). map_of (get_dependency_levels a) f \<noteq> None"
    by (simp_all add: get_dependency_levels_def)
  from has assms obtain l where l: "map_of (get_dependency_levels a) f = Some l" by auto
  then have "(f, l) \<in> set (get_dependency_levels a)" by (rule map_of_SomeD)
  then have "l \<in> snd ` set (get_dependency_levels a)" by force
  with pos l show ?thesis by auto
qed

lemma two_cycle_is_cyclic:
  assumes "d1 \<in> set (deps_of g f1)" and "d2 \<in> set (deps_of g d1)" and "d2 = f1"
  shows "\<not> acyclic (dep_edges g)"
proof -
  from assms(1) have "(f1, d1) \<in> dep_edges g" by (rule in_dep_edges)
  moreover from assms(2,3) have "(d1, f1) \<in> dep_edges g" by (simp add: in_dep_edges)
  ultimately have "(f1, f1) \<in> (dep_edges g)\<^sup>+" by (rule trancl.intros(2) [OF r_into_trancl])
  then show ?thesis by (auto simp: acyclic_def)
qed

lemma ab_levels:
  "get_dependency_levels \<lparr>file_imports = [(''A'', [''B'']), (''B'', [''A''])],
       dependency_graph = [(''A'', [''B'']), (''B'', [''A''])]\<rparr> = [(''B'', 1), (''A'', 2)]"
  by (simp add: get_dependency_levels_def get_level.simps get_levels.simps deps_of_def)

text \<open>
  C4. The three files \<^verbatim>\<open>a.py\<close>, \<^verbatim>\<open>b.py\<close>, \<^verbatim>\<open>c.py\<close>, where \<^verbatim>\<open>a.py\<close> imports
  the other two and \<^verbatim>\<open>b.py\<close> imports \<^verbatim>\<open>a.py\<close>: \<^verbatim>\<open>analyze_repository\<close> leaves
  the graph with the keys \<^verbatim>\<open>a.py\<close> and \<^verbatim>\<open>b.py\<close>. The graph has a cycle, and
  \<^const>\<open>detect_cycles\<close> reports none: it raises, in whichever order the two
  dependencies of \<^verbatim>\<open>a.py\<close> are visited, because the search looks \<^verbatim>\<open>c.py\<close> up
  and so adds a key to the dictionary whose keys are being iterated over. The same
  graph with \<^verbatim>\<open>c.py\<close> among its keys yields the cycle.
\<close>

theorem detect_cycles_raises_on_cyclic_graph:
  "\<not> acyclic (dep_edges [(''a.py'', [''b.py'', ''c.py'']), (''b.py'', [''a.py''])]) \<and>
   detect_cycles [(''a.py'', [''b.py'', ''c.py'']), (''b.py'', [''a.py''])] =
     Inl (RuntimeError ''dictionary changed size during iteration'') \<and>
   detect_cycles [(''a.py'', [''c.py'', ''b.py'']), (''b.py'', [''a.py''])] =
     Inl (RuntimeError ''dictionary changed size during iteration'') \<and>
   detect_cycles [(''a.py'', [''b.py'', ''c.py'']), (''b.py'', [''a.py'']), (''c.py'', [])] =
     Inr [[''a.py'', ''b.py'', ''a.py'']]"
proof -
  have c: "\<not> acyclic (dep_edges [(''a.py'', [''b.py'', ''c.py'']), (''b.py'', [''a.py''])])"
    by (rule two_cycle_is_cyclic [of "''b.py''" _ "''a.py''" "''a.py''"]) (simp_all add: deps_of_def)
  have r1: "detect_cycles [(''a.py'', [''b.py'', ''c.py'']), (''b.py'', [''a.py''])] =
      Inl (RuntimeError ''dictionary changed size during iteration'')"
    by (simp add: detect_cycles_def dfs.simps dfs_neighbors.simps deps_of_def touch_key_def)
  have r2: "detect_cycles [(''a.py'', [''c.py'', ''b.py'']), (''b.py'', [''a.py''])] =
      Inl (RuntimeError ''dictionary changed size during iteration'')"
    by (simp add: detect_cycles_def dfs.simps dfs_neighbors.simps deps_of_def touch_key_def)
  have r3: "detect_cycles [(''a.py'', [''b.py'', ''c.py'']), (''b.py'', [''a.py'']), (''c.py'', [])] =
      Inr [[''a.py'', ''b.py'', ''a.py'']]"
    by (simp add: detect_cycles_def dfs.simps dfs_neighbors.simps deps_of_def touch_key_def)
  from c r1 r2 r3 show ?thesis by (intro conjI)
qed


end
